theory Spec2Isabelle
  imports Complex_Main "HOL-Library.Multiset" "HOL-Library.Word"
begin

unbundle bit_operations_syntax

section \<open>Clock state and the pause/resume primitives\<close>

text \<open>
  The two globals \<^verbatim>\<open>measure_start\<close> and \<^verbatim>\<open>measure_pause\<close> are time points of
  \<^verbatim>\<open>std::chrono::high_resolution_clock\<close>. A time point is modelled by its tick count, an
  integer; the field \<open>clock\<close> is the reading that \<^verbatim>\<open>high_resolution_clock::now()\<close>
  returns in the current state.
\<close>

record timing =
  clock :: int
  measure_start :: int
  measure_pause :: int

definition now :: "timing \<Rightarrow> int" where
  "now st = clock st"

definition pause_timing :: "timing \<Rightarrow> timing" where
  "pause_timing st = st\<lparr>measure_pause := now st\<rparr>"

definition resume_timing :: "timing \<Rightarrow> timing" where
  "resume_timing st = st\<lparr>measure_start := measure_start st + (now st - measure_pause st)\<rparr>"

text \<open>
  The elapsed-time reading of \<^verbatim>\<open>measure\<close>, \<^verbatim>\<open>t2-measure_start\<close>, for a clock reading
  \<^verbatim>\<open>t2\<close>.
\<close>

definition elapsed :: "int \<Rightarrow> timing \<Rightarrow> int" where
  "elapsed t2 st = t2 - measure_start st"

text \<open>The passage of wall-clock time between two calls: the clock reads \<open>t\<close> afterwards.\<close>

definition at_time :: "int \<Rightarrow> timing \<Rightarrow> timing" where
  "at_time t st = st\<lparr>clock := t\<rparr>"

section \<open>Double-precision arithmetic\<close>

text \<open>
  \<^verbatim>\<open>measure\<close> computes in \<^verbatim>\<open>double\<close>. A finite \<^verbatim>\<open>double\<close> is modelled by the real number it
  denotes, and an operation by the exact operation followed by \<open>fl\<close>, the rounding of
  IEEE 754 binary64 in the default mode: to the nearest number with a significand of 53
  bits, a tie going to the even significand, with gradual underflow (no exponent below
  \<open>- 1074\<close> for the last bit). The
  largest finite \<^verbatim>\<open>double\<close>, the infinities, NaN and the sign of zero are not modelled: the
  values here are durations in seconds, counts, and sums and quotients of these.
\<close>

text \<open>The number of binary digits of \<open>n\<close>.\<close>

fun bit_length :: "nat \<Rightarrow> nat" where
  "bit_length n = (if n = 0 then 0 else Suc (bit_length (n div 2)))"

declare bit_length.simps [simp del]

definition pow2 :: "int \<Rightarrow> real" where
  "pow2 e = (if 0 \<le> e then 2 ^ nat e else 1 / 2 ^ nat (- e))"

text \<open>For \<open>a > 0\<close>, the exponent \<open>e\<close> with \<open>2 ^ e \<le> a < 2 ^ (e + 1)\<close>.\<close>

definition ilog2 :: "real \<Rightarrow> int" where
  "ilog2 a =
     (if 1 \<le> a then int (bit_length (nat \<lfloor>a\<rfloor>)) - 1
      else - int (bit_length (nat (\<lceil>1 / a\<rceil> - 1))))"

text \<open>The nearest integer, a tie going to the even one.\<close>

definition round_even :: "real \<Rightarrow> int" where
  "round_even x =
     (let f = \<lfloor>x\<rfloor>; d = x - of_int f
      in if d < 1 / 2 then f
         else if 1 / 2 < d then f + 1
         else if even f then f else f + 1)"

definition fl :: "real \<Rightarrow> real" where
  "fl x =
     (if x = 0 then 0
      else let a = \<bar>x\<bar>;
               e = max (ilog2 a - 52) (- 1074)
           in sgn x * of_int (round_even (a / pow2 e)) * pow2 e)"

definition double_add :: "real \<Rightarrow> real \<Rightarrow> real" where
  "double_add x y = fl (x + y)"

definition double_div :: "real \<Rightarrow> real \<Rightarrow> real" where
  "double_div x y = fl (x / y)"

text \<open>The conversion of an integer to \<^verbatim>\<open>double\<close>.\<close>

definition double_of_int :: "int \<Rightarrow> real" where
  "double_of_int n = fl (of_int n)"

section \<open>The trial runner\<close>

text \<open>
  A candidate \<^verbatim>\<open>f\<close> is a zero-argument callable. Calling it returns a value and takes
  time; it may also call \<open>pause_timing\<close> and \<open>resume_timing\<close>. It is a function from the
  timing state before the call to its result and the timing state at the next reading of
  the clock.
\<close>

type_synonym 'r candidate = "timing \<Rightarrow> 'r \<times> timing"

definition num_trials :: nat where
  "num_trials = 10"

text \<open>\<^verbatim>\<open>min_time_per_trial(200)\<close>, in milliseconds.\<close>

definition min_time_per_trial :: int where
  "min_time_per_trial = 200"

text \<open>
  The tick of \<^verbatim>\<open>high_resolution_clock\<close> is implementation-defined: \<open>tps\<close> is the number
  of ticks in a second. \<^verbatim>\<open>t2-measure_start<min_time_per_trial\<close> compares a duration in
  ticks with one in milliseconds, exactly, in integers.
  \<^verbatim>\<open>duration_cast<duration<double>>(d).count()\<close> converts the tick count to \<^verbatim>\<open>double\<close> and
  divides it by the number of ticks in a second, in \<^verbatim>\<open>double\<close>.
\<close>

definition less_than_ms :: "int \<Rightarrow> int \<Rightarrow> int \<Rightarrow> bool" where
  "less_than_ms tps d ms \<longleftrightarrow> d * 1000 < ms * tps"

definition seconds :: "int \<Rightarrow> int \<Rightarrow> real" where
  "seconds tps d = double_div (double_of_int d) (double_of_int tps)"

text \<open>
  \<^verbatim>\<open>do{ res=f(); ++runs; t2=now(); }while(t2-measure_start<min_time_per_trial);\<close>
  The loop returns the run count, the values assigned to the \<^verbatim>\<open>volatile\<close> variable
  \<^verbatim>\<open>res\<close> in the order of the assignments, \<^verbatim>\<open>t2\<close> and the timing state, and nothing when
  it never exits. The run count is an integer without bound (\<^verbatim>\<open>int runs\<close> in the source).
\<close>

partial_function (option) trial_loop ::
  "int \<Rightarrow> 'r candidate \<Rightarrow> int \<Rightarrow> 'r list \<Rightarrow> timing \<Rightarrow> (int \<times> 'r list \<times> int \<times> timing) option" where
  "trial_loop tps f n rs st =
     (let (r, st1) = f st;
          rs1 = rs @ [r];
          n1 = n + 1;
          t2 = now st1
      in if less_than_ms tps (elapsed t2 st1) min_time_per_trial
         then trial_loop tps f n1 rs1 st1
         else Some (n1, rs1, t2, st1))"

text \<open>
  One trial: its run count, the values it assigned to \<^verbatim>\<open>res\<close>, the duration
  \<^verbatim>\<open>t2-measure_start\<close> at the exit of the loop, and the value stored in \<^verbatim>\<open>trials[i]\<close>:
  \<^verbatim>\<open>duration_cast<duration<double>>(t2-measure_start).count()/runs\<close>.
\<close>

record 'r trial =
  t_runs :: int
  t_sink :: "'r list"
  t_span :: int
  t_average :: real

definition run_trial :: "int \<Rightarrow> 'r candidate \<Rightarrow> timing \<Rightarrow> ('r trial \<times> timing) option" where
  "run_trial tps f st =
     (case trial_loop tps f 0 [] (st\<lparr>measure_start := now st\<rparr>) of
        None \<Rightarrow> None
      | Some (n, rs, t2, st1) \<Rightarrow>
          Some (\<lparr>t_runs = n, t_sink = rs, t_span = elapsed t2 st1,
                 t_average = double_div (seconds tps (elapsed t2 st1)) (double_of_int n)\<rparr>, st1))"

text \<open>\<^verbatim>\<open>for(int i=0;i<num_trials;++i){...}\<close>, by the number of trials left.\<close>

fun run_trials ::
  "int \<Rightarrow> 'r candidate \<Rightarrow> nat \<Rightarrow> timing \<Rightarrow> ('r trial list \<times> timing) option" where
  "run_trials tps f 0 st = Some ([], st)"
| "run_trials tps f (Suc k) st =
     (case run_trial tps f st of
        None \<Rightarrow> None
      | Some (t, st1) \<Rightarrow>
          (case run_trials tps f k st1 of
             None \<Rightarrow> None
           | Some (ts, st2) \<Rightarrow> Some (t # ts, st2)))"

text \<open>
  \<^verbatim>\<open>std::sort(trials.begin(),trials.end());\<close>
  \<^verbatim>\<open>return std::accumulate(trials.begin()+2,trials.end()-2,0.0)/(trials.size()-4);\<close>
  \<^verbatim>\<open>std::accumulate\<close> adds the elements to \<^verbatim>\<open>0.0\<close> from the left, each addition in
  \<^verbatim>\<open>double\<close>; the count \<^verbatim>\<open>trials.size()-4\<close> is converted to \<^verbatim>\<open>double\<close> for the division.
\<close>

definition aggregate :: "real list \<Rightarrow> real" where
  "aggregate trials =
     (let sorted_trials = sort trials
      in double_div
           (foldl double_add 0 (take (length sorted_trials - 4) (drop 2 sorted_trials)))
           (double_of_int (int (length sorted_trials - 4))))"

definition measure_trials ::
  "int \<Rightarrow> 'r candidate \<Rightarrow> timing \<Rightarrow> ('r trial list \<times> timing) option" where
  "measure_trials tps f st = run_trials tps f num_trials st"

text \<open>
  \<^verbatim>\<open>measure\<close>: the value returned, the values assigned to \<^verbatim>\<open>res\<close> during the call, and the
  timing state after it.
\<close>

definition measure_fn ::
  "int \<Rightarrow> 'r candidate \<Rightarrow> timing \<Rightarrow> (real \<times> 'r list \<times> timing) option" where
  "measure_fn tps f st =
     (case measure_trials tps f st of
        None \<Rightarrow> None
      | Some (ts, st') \<Rightarrow> Some (aggregate (map t_average ts), concat (map t_sink ts), st'))"

text \<open>
  The aggregation in the words of the specification: sort ascending, discard the two
  smallest and the two largest, take the mean of what remains; the mean is the sum divided
  by the count, both in \<^verbatim>\<open>double\<close>, and \<open>exact_mean\<close> is the mean in real numbers.
\<close>

definition double_mean :: "real list \<Rightarrow> real" where
  "double_mean ys = double_div (foldl double_add 0 ys) (double_of_int (int (length ys)))"

definition exact_mean :: "real list \<Rightarrow> real" where
  "exact_mean ys = sum_list ys / real (length ys)"

definition trimmed :: "real list \<Rightarrow> real list" where
  "trimmed xs = butlast (butlast (tl (tl (sort xs))))"

definition trimmed_mean_spec :: "real list \<Rightarrow> real" where
  "trimmed_mean_spec xs = double_mean (trimmed xs)"

section \<open>External collaborators of the visitation strategies\<close>

text \<open>
  The strategies are templates over a \<^verbatim>\<open>Map\<close> and a \<^verbatim>\<open>Distribution\<close>, and draw from a
  generator \<^verbatim>\<open>URNG\<close>. None of the three is code of this program (Boost's
  \<^verbatim>\<open>concurrent_flat_map\<close> and \<^verbatim>\<open>splitmix64\<close>, the standard library's
  \<^verbatim>\<open>uniform_int_distribution\<close>), so each is a parameter: a record of the operations the
  program uses.

  \<^item> \<open>splitmix64_urng lib seed\<close> is the generator state that \<^verbatim>\<open>splitmix64_urng gen(seed)\<close>
    constructs;
  \<^item> \<open>uniform_int_distribution lib (a, b) g\<close> is the call \<^verbatim>\<open>dist(gen)\<close> of a distribution
    constructed as \<^verbatim>\<open>distribution_type{a,b}\<close>: the key drawn and the generator's next state;
  \<^item> \<open>visit M m k\<close> is \<^verbatim>\<open>m.visit(k,f)\<close> and \<open>visit_range M m ks\<close> is
    \<^verbatim>\<open>m.visit(first,last,f)\<close> over the keys \<open>ks\<close> of the range, both as the
    \<^verbatim>\<open>std::size_t\<close> they return (the callbacks of this program do nothing);
  \<^item> \<open>bulk_visit_size M\<close> is the constant \<^verbatim>\<open>Map::bulk_visit_size\<close>.
\<close>

record 'g random_lib =
  splitmix64_urng :: "64 word \<Rightarrow> 'g"
  uniform_int_distribution :: "int \<times> int \<Rightarrow> 'g \<Rightarrow> int \<times> 'g"

record 'm map_class =
  visit :: "'m \<Rightarrow> int \<Rightarrow> nat"
  visit_range :: "'m \<Rightarrow> int list \<Rightarrow> nat"
  bulk_visit_size :: nat

text \<open>
  What a run does to its surroundings: the generator it advances, the keys it has drawn
  from the distribution and the calls it has issued to the container, oldest first.
\<close>

datatype call = Visit int | VisitRange "int list"

record 'g world =
  gen :: 'g
  drawn :: "int list"
  issued :: "call list"

text \<open>
  Behaviour the C++ standard leaves undefined is a value of the model: overflow of the
  \<^verbatim>\<open>int\<close> expression \<^verbatim>\<open>2*N-1\<close>, a distribution constructed with \<open>a > b\<close>, an array
  access outside \<^verbatim>\<open>keys\<close>, a read of an element of \<^verbatim>\<open>keys\<close> never written.
\<close>

datatype ub = SignedOverflow | BadDistributionParams | OutOfBounds | IndeterminateRead

definition int_max :: int where
  "int_max = 2 ^ 31 - 1"

definition int_min :: int where
  "int_min = - (2 ^ 31)"

definition draw :: "'g random_lib \<Rightarrow> int \<times> int \<Rightarrow> 'g world \<Rightarrow> int \<times> 'g world" where
  "draw lib d w =
     (let (k, g') = uniform_int_distribution lib d (gen w)
      in (k, w\<lparr>gen := g', drawn := drawn w @ [k]\<rparr>))"

definition issue :: "call \<Rightarrow> 'g world \<Rightarrow> 'g world" where
  "issue c w = w\<lparr>issued := issued w @ [c]\<rparr>"

section \<open>The single-key strategy\<close>

record 'm regular_visitor =
  rv_m :: 'm
  rv_dist :: "int \<times> int"
  rv_res :: int

definition regular_visitor_ctor :: "'m \<Rightarrow> int \<times> int \<Rightarrow> 'm regular_visitor" where
  "regular_visitor_ctor m0 dist0 = \<lparr>rv_m = m0, rv_dist = dist0, rv_res = 0\<rparr>"

text \<open>
  \<^verbatim>\<open>res+=(int)m.visit(dist(gen),[](const auto&){});\<close>
  The count is a \<^verbatim>\<open>std::size_t\<close>, cast to \<^verbatim>\<open>int\<close> and added to the \<^verbatim>\<open>int\<close> member
  \<^verbatim>\<open>res\<close>. In the model \<open>res\<close> is an integer without bound and the cast is exact: under the
  contract of the container the counts of a run sum to at most the number of keys drawn,
  which is an \<^verbatim>\<open>int\<close> in \<^verbatim>\<open>visit_tester\<close>.
\<close>

definition regular_visitor_call ::
  "'g random_lib \<Rightarrow> 'm map_class \<Rightarrow> 'm regular_visitor \<Rightarrow> 'g world
     \<Rightarrow> ub + 'm regular_visitor \<times> 'g world" where
  "regular_visitor_call lib M v w =
     (let (k, w1) = draw lib (rv_dist v) w;
          n = visit M (rv_m v) k
      in Inr (v\<lparr>rv_res := rv_res v + int n\<rparr>, issue (Visit k) w1))"

definition regular_visitor_flush ::
  "'m regular_visitor \<Rightarrow> 'g world \<Rightarrow> ub + 'm regular_visitor \<times> 'g world" where
  "regular_visitor_flush v w = Inr (v, w)"

section \<open>The batched strategy\<close>

text \<open>
  \<^verbatim>\<open>std::array<int,N> keys\<close> has no initialiser: its elements are indeterminate until
  written. An element is \<open>None\<close> until \<^verbatim>\<open>operator()\<close> stores a key in it.
\<close>

record 'm bulk_visitor =
  bv_m :: 'm
  bv_dist :: "int \<times> int"
  bv_res :: int
  bv_i :: int
  bv_keys :: "int option list"

definition bulk_visitor_ctor :: "'m map_class \<Rightarrow> 'm \<Rightarrow> int \<times> int \<Rightarrow> 'm bulk_visitor" where
  "bulk_visitor_ctor M m0 dist0 =
     \<lparr>bv_m = m0, bv_dist = dist0, bv_res = 0, bv_i = 0,
      bv_keys = replicate (bulk_visit_size M) None\<rparr>"

text \<open>
  \<^verbatim>\<open>res+=(int)m.visit(keys.begin(),keys.begin()+i,[](const auto&){}); i=0;\<close>
  The call is made whatever \<open>i\<close> is, on an empty range when \<open>i = 0\<close>.
\<close>

definition bulk_visitor_flush ::
  "'m map_class \<Rightarrow> 'm bulk_visitor \<Rightarrow> 'g world \<Rightarrow> ub + 'm bulk_visitor \<times> 'g world" where
  "bulk_visitor_flush M v w =
     (if bv_i v < 0 \<or> int (length (bv_keys v)) < bv_i v then Inl OutOfBounds
      else case those (take (nat (bv_i v)) (bv_keys v)) of
             None \<Rightarrow> Inl IndeterminateRead
           | Some ks \<Rightarrow>
               Inr (v\<lparr>bv_res := bv_res v + int (visit_range M (bv_m v) ks), bv_i := 0\<rparr>,
                    issue (VisitRange ks) w))"

text \<open>\<^verbatim>\<open>keys[i++]=dist(gen); if(i==N)flush();\<close>\<close>

definition bulk_visitor_call ::
  "'g random_lib \<Rightarrow> 'm map_class \<Rightarrow> 'm bulk_visitor \<Rightarrow> 'g world
     \<Rightarrow> ub + 'm bulk_visitor \<times> 'g world" where
  "bulk_visitor_call lib M v w =
     (let (k, w1) = draw lib (bv_dist v) w
      in if bv_i v < 0 \<or> int (length (bv_keys v)) \<le> bv_i v then Inl OutOfBounds
         else let v1 = v\<lparr>bv_keys := (bv_keys v)[nat (bv_i v) := Some k],
                         bv_i := bv_i v + 1\<rparr>
              in if bv_i v1 = int (bulk_visit_size M) then bulk_visitor_flush M v1 w1
                 else Inr (v1, w1))"

section \<open>The strategy run\<close>

text \<open>
  \<^verbatim>\<open>visit_tester<Visitor>\<close> is a template over the strategy; the operations of a strategy
  that it uses are the fields of \<open>visitor_class\<close>.
\<close>

record ('m, 'v, 'g) visitor_class =
  ctor :: "'m \<Rightarrow> int \<times> int \<Rightarrow> 'v"
  call_op :: "'v \<Rightarrow> 'g world \<Rightarrow> ub + 'v \<times> 'g world"
  flush :: "'v \<Rightarrow> 'g world \<Rightarrow> ub + 'v \<times> 'g world"
  res :: "'v \<Rightarrow> int"

definition regular_visitor ::
  "'g random_lib \<Rightarrow> 'm map_class \<Rightarrow> ('m, 'm regular_visitor, 'g) visitor_class" where
  "regular_visitor lib M =
     \<lparr>ctor = regular_visitor_ctor, call_op = regular_visitor_call lib M,
      flush = regular_visitor_flush, res = rv_res\<rparr>"

definition bulk_visitor ::
  "'g random_lib \<Rightarrow> 'm map_class \<Rightarrow> ('m, 'm bulk_visitor, 'g) visitor_class" where
  "bulk_visitor lib M =
     \<lparr>ctor = bulk_visitor_ctor M, call_op = bulk_visitor_call lib M,
      flush = bulk_visitor_flush M, res = bv_res\<rparr>"

text \<open>The loop \<^verbatim>\<open>for(int i=0;i<N;++i)visit(gen);\<close>, by the number of iterations left.\<close>

fun visit_loop ::
  "('v \<Rightarrow> 'g world \<Rightarrow> ub + 'v \<times> 'g world) \<Rightarrow> nat \<Rightarrow> 'v \<Rightarrow> 'g world \<Rightarrow> ub + 'v \<times> 'g world" where
  "visit_loop f 0 v w = Inr (v, w)"
| "visit_loop f (Suc n) v w =
     (case f v w of Inl e \<Rightarrow> Inl e | Inr (v', w') \<Rightarrow> visit_loop f n v' w')"

text \<open>\<^verbatim>\<open>for(int i=0;i<N;++i)visit(gen); visit.flush();\<close>\<close>

definition drive ::
  "('m, 'v, 'g) visitor_class \<Rightarrow> nat \<Rightarrow> 'v \<Rightarrow> 'g world \<Rightarrow> ub + 'v \<times> 'g world" where
  "drive V n v w =
     (case visit_loop (call_op V) n v w of
        Inl e \<Rightarrow> Inl e
      | Inr (v', w') \<Rightarrow> flush V v' w')"

definition seed :: "64 word" where
  "seed = 282472"

text \<open>
  The body of \<^verbatim>\<open>visit_tester::operator()\<close> up to the \<^verbatim>\<open>return\<close>: the visitor and the
  world after the final \<^verbatim>\<open>flush\<close>. \<^verbatim>\<open>N\<close> is an \<^verbatim>\<open>int\<close> of 32 bits and \<^verbatim>\<open>2*N-1\<close> is
  evaluated in \<^verbatim>\<open>int\<close>; the distribution \<^verbatim>\<open>distribution_type{0,2*N-1}\<close> requires
  \<open>0 \<le> 2 * N - 1\<close>.
\<close>

definition visit_tester_run ::
  "('m, 'v, 'g) visitor_class \<Rightarrow> 'g random_lib \<Rightarrow> 'm \<Rightarrow> int \<Rightarrow> ub + 'v \<times> 'g world" where
  "visit_tester_run V lib m N =
     (if 2 * N < int_min \<or> int_max < 2 * N \<or> 2 * N - 1 < int_min then Inl SignedOverflow
      else if 2 * N - 1 < 0 then Inl BadDistributionParams
      else let w0 = \<lparr>gen = splitmix64_urng lib seed, drawn = [], issued = []\<rparr>;
               v0 = ctor V m (0, 2 * N - 1)
           in drive V (nat N) v0 w0)"

text \<open>\<^verbatim>\<open>return visit.res;\<close> converts the \<^verbatim>\<open>int\<close> to \<^verbatim>\<open>result_type=std::size_t\<close>.\<close>

definition size_t_of_int :: "int \<Rightarrow> nat" where
  "size_t_of_int x = nat (x mod 2 ^ 64)"

definition visit_tester ::
  "('m, 'v, 'g) visitor_class \<Rightarrow> 'g random_lib \<Rightarrow> 'm \<Rightarrow> int \<Rightarrow> ub + nat" where
  "visit_tester V lib m N =
     (case visit_tester_run V lib m N of
        Inl e \<Rightarrow> Inl e
      | Inr (v, w) \<Rightarrow> Inr (size_t_of_int (res V v)))"

section \<open>The container under test\<close>

text \<open>
  Modelled from the spec: \<^verbatim>\<open>boost::concurrent_flat_map<int,int>\<close>, which is not code of
  this program. Its interface as the specification gives it: \<^verbatim>\<open>insert\<close> adds an entry
  (a key already present keeps its value, as in Boost), \<^verbatim>\<open>reserve\<close> pre-sizes the storage
  and changes no entry, \<^verbatim>\<open>visit(key, callback)\<close> returns 1 when the key is present and 0
  otherwise, \<^verbatim>\<open>visit(first, last, callback)\<close> returns the number of keys of the range that
  are present. The preferred batch size is a parameter.
\<close>

record concurrent_flat_map =
  entries :: "int \<rightharpoonup> int"
  reserved :: nat

definition cfm_empty :: concurrent_flat_map where
  "cfm_empty = \<lparr>entries = Map.empty, reserved = 0\<rparr>"

definition cfm_reserve :: "nat \<Rightarrow> concurrent_flat_map \<Rightarrow> concurrent_flat_map" where
  "cfm_reserve n c = c\<lparr>reserved := max (reserved c) n\<rparr>"

definition cfm_insert :: "int \<times> int \<Rightarrow> concurrent_flat_map \<Rightarrow> concurrent_flat_map" where
  "cfm_insert kv c =
     (case entries c (fst kv) of
        Some _ \<Rightarrow> c
      | None \<Rightarrow> c\<lparr>entries := (entries c)(fst kv \<mapsto> snd kv)\<rparr>)"

definition cfm_visit :: "concurrent_flat_map \<Rightarrow> int \<Rightarrow> nat" where
  "cfm_visit c k = (case entries c k of Some _ \<Rightarrow> 1 | None \<Rightarrow> 0)"

definition cfm_visit_range :: "concurrent_flat_map \<Rightarrow> int list \<Rightarrow> nat" where
  "cfm_visit_range c ks = length (filter (\<lambda>k. entries c k \<noteq> None) ks)"

definition cfm_class :: "nat \<Rightarrow> concurrent_flat_map map_class" where
  "cfm_class B = \<lparr>visit = cfm_visit, visit_range = cfm_visit_range, bulk_visit_size = B\<rparr>"

section \<open>The benchmark driver\<close>

text \<open>
  What the driver does to its surroundings, in order: the calls that construct and fill
  the container, the values that \<^verbatim>\<open>measure\<close> assigns to its \<^verbatim>\<open>volatile\<close> variable, and what
  is written to \<^verbatim>\<open>std::cout\<close>, operand by operand.
\<close>

datatype out = Out_str string | Out_int int | Out_double real | Out_endl

datatype event = Construct | Reserve nat | Insert "int \<times> int" | Sink "ub + nat" | Cout out

text \<open>\<^verbatim>\<open>for(auto N:{3'000,25'000,600'000,10'000'000})\<close>\<close>

definition sweep :: "int list" where
  "sweep = [3000, 25000, 600000, 10000000]"

text \<open>
  \<^verbatim>\<open>boost::concurrent_flat_map<int,int> m; m.reserve(std::size_t(N));\<close>
  \<^verbatim>\<open>for(int i=0;i<N;++i) m.insert({i,i});\<close>
  Each call changes the container and is recorded.
\<close>

definition construct_map :: "event list \<Rightarrow> concurrent_flat_map \<times> event list" where
  "construct_map evs = (cfm_empty, evs @ [Construct])"

definition reserve_map ::
  "nat \<Rightarrow> concurrent_flat_map \<times> event list \<Rightarrow> concurrent_flat_map \<times> event list" where
  "reserve_map n me = (cfm_reserve n (fst me), snd me @ [Reserve n])"

definition insert_map ::
  "int \<times> int \<Rightarrow> concurrent_flat_map \<times> event list \<Rightarrow> concurrent_flat_map \<times> event list" where
  "insert_map kv me = (cfm_insert kv (fst me), snd me @ [Insert kv])"

definition insert_loop ::
  "nat \<Rightarrow> concurrent_flat_map \<times> event list \<Rightarrow> concurrent_flat_map \<times> event list" where
  "insert_loop n me = fold (\<lambda>i. insert_map (int i, int i)) [0..<n] me"

definition build_dataset :: "int \<Rightarrow> event list \<Rightarrow> concurrent_flat_map \<times> event list" where
  "build_dataset N evs = insert_loop (nat N) (reserve_map (nat N) (construct_map evs))"

text \<open>The container these statements build.\<close>

definition build_map :: "int \<Rightarrow> concurrent_flat_map" where
  "build_map N = fst (build_dataset N [])"

text \<open>
  \<^verbatim>\<open>boost::bind(visit_tester<Visitor>(),boost::cref(m),N)\<close>: the candidate handed to
  \<^verbatim>\<open>measure\<close>. What the clock reads after a call is not decided by the program: \<open>elapse\<close>
  is the passage of time during one call.
\<close>

definition bind_visit_tester ::
  "(timing \<Rightarrow> timing) \<Rightarrow> ('m, 'v, 'g) visitor_class \<Rightarrow> 'g random_lib \<Rightarrow> 'm \<Rightarrow> int
     \<Rightarrow> (ub + nat) candidate" where
  "bind_visit_tester elapse V lib m N = (\<lambda>st. (visit_tester V lib m N, elapse st))"

text \<open>A call of \<^verbatim>\<open>measure\<close> by the driver, its assignments to \<^verbatim>\<open>res\<close> recorded.\<close>

definition measure_logged ::
  "int \<Rightarrow> (ub + nat) candidate \<Rightarrow> timing \<times> event list \<Rightarrow> (real \<times> timing \<times> event list) option" where
  "measure_logged tps f p =
     (case measure_fn tps f (fst p) of
        None \<Rightarrow> None
      | Some (t, rs, st') \<Rightarrow> Some (t, st', snd p @ map Sink rs))"

text \<open>\<^verbatim>\<open>N/t/1E6\<close>, in \<^verbatim>\<open>double\<close>.\<close>

definition throughput :: "int \<Rightarrow> real \<Rightarrow> real" where
  "throughput N t = double_div (double_div (double_of_int N) t) 1000000"

text \<open>The body of the loop of \<^verbatim>\<open>visit_test\<close> for one size, and the loop over the sizes.\<close>

definition visit_test_row ::
  "int \<Rightarrow> (timing \<Rightarrow> timing) \<Rightarrow> (timing \<Rightarrow> timing) \<Rightarrow> 'g random_lib \<Rightarrow> nat \<Rightarrow> int
     \<Rightarrow> timing \<times> event list \<Rightarrow> (timing \<times> event list) option" where
  "visit_test_row tps elapse1 elapse2 lib B N p =
     (let (m, evs1) = build_dataset N (snd p)
      in case measure_logged tps
                (bind_visit_tester elapse1 (regular_visitor lib (cfm_class B)) lib m N)
                (fst p, evs1) of
           None \<Rightarrow> None
         | Some (t, st2, evs2) \<Rightarrow>
             (let evs3 = evs2 @ [Cout (Out_int N), Cout (Out_str '';''),
                                 Cout (Out_double (throughput N t)), Cout (Out_str '';'')]
              in case measure_logged tps
                        (bind_visit_tester elapse2 (bulk_visitor lib (cfm_class B)) lib m N)
                        (st2, evs3) of
                   None \<Rightarrow> None
                 | Some (t', st4, evs4) \<Rightarrow>
                     Some (st4, evs4 @ [Cout (Out_double (throughput N t')), Cout Out_endl])))"

fun visit_test_loop ::
  "int \<Rightarrow> (timing \<Rightarrow> timing) \<Rightarrow> (timing \<Rightarrow> timing) \<Rightarrow> 'g random_lib \<Rightarrow> nat \<Rightarrow> int list
     \<Rightarrow> timing \<times> event list \<Rightarrow> (timing \<times> event list) option" where
  "visit_test_loop tps elapse1 elapse2 lib B [] p = Some p"
| "visit_test_loop tps elapse1 elapse2 lib B (N # Ns) p =
     (case visit_test_row tps elapse1 elapse2 lib B N p of
        None \<Rightarrow> None
      | Some p1 \<Rightarrow> visit_test_loop tps elapse1 elapse2 lib B Ns p1)"

text \<open>
  \<^verbatim>\<open>visit_test<regular_visitor,bulk_visitor>("regular","bulk")\<close>, the call of \<^verbatim>\<open>main\<close>:
  the two header lines, then the loop.
\<close>

definition visit_test ::
  "int \<Rightarrow> (timing \<Rightarrow> timing) \<Rightarrow> (timing \<Rightarrow> timing) \<Rightarrow> 'g random_lib \<Rightarrow> nat \<Rightarrow> string \<Rightarrow> string
     \<Rightarrow> timing \<times> event list \<Rightarrow> (timing \<times> event list) option" where
  "visit_test tps elapse1 elapse2 lib B name1 name2 p =
     visit_test_loop tps elapse1 elapse2 lib B sweep
       (fst p, snd p @ [Cout (Out_str ''visit:''), Cout Out_endl,
                        Cout (Out_str ''N;''), Cout (Out_str name1), Cout (Out_str '';''),
                        Cout (Out_str name2), Cout Out_endl])"

section \<open>Sequences of calls on a batched visitor\<close>

datatype visitor_op = Call | Flush

fun bulk_visitor_ops ::
  "'g random_lib \<Rightarrow> 'm map_class \<Rightarrow> visitor_op list \<Rightarrow> 'm bulk_visitor \<Rightarrow> 'g world
     \<Rightarrow> ub + 'm bulk_visitor \<times> 'g world" where
  "bulk_visitor_ops lib M [] v w = Inr (v, w)"
| "bulk_visitor_ops lib M (Call # ops) v w =
     (case bulk_visitor_call lib M v w of
        Inl e \<Rightarrow> Inl e
      | Inr (v', w') \<Rightarrow> bulk_visitor_ops lib M ops v' w')"
| "bulk_visitor_ops lib M (Flush # ops) v w =
     (case bulk_visitor_flush M v w of
        Inl e \<Rightarrow> Inl e
      | Inr (v', w') \<Rightarrow> bulk_visitor_ops lib M ops v' w')"

section \<open>Contracts of the collaborators\<close>

text \<open>
  \<^verbatim>\<open>std::uniform_int_distribution\<close> constructed with \<open>a \<le> b\<close> produces values of the closed
  interval from \<open>a\<close> to \<open>b\<close>.
\<close>

definition uniform_int_contract :: "'g random_lib \<Rightarrow> bool" where
  "uniform_int_contract lib \<longleftrightarrow>
     (\<forall>a b g. a \<le> b \<longrightarrow>
        a \<le> fst (uniform_int_distribution lib (a, b) g) \<and>
        fst (uniform_int_distribution lib (a, b) g) \<le> b)"

text \<open>
  A single-key visit returns 0 or 1; a visit of a range of \<open>k\<close> keys returns at most \<open>k\<close>.
\<close>

definition container_contract :: "'m map_class \<Rightarrow> 'm \<Rightarrow> bool" where
  "container_contract M m \<longleftrightarrow>
     (\<forall>k. visit M m k \<le> 1) \<and> (\<forall>ks. visit_range M m ks \<le> length ks)"

section \<open>Candidates of fixed duration\<close>

text \<open>The passage of \<open>d\<close> ticks, with \<^verbatim>\<open>measure_start\<close> and \<^verbatim>\<open>measure_pause\<close> left alone.\<close>

definition advance :: "int \<Rightarrow> timing \<Rightarrow> timing" where
  "advance d st = st\<lparr>clock := clock st + d\<rparr>"

text \<open>
  A candidate for statements about a concrete trial: each call returns nothing of interest
  and takes \<open>d\<close> ticks.
\<close>

definition fixed_cost :: "int \<Rightarrow> unit candidate" where
  "fixed_cost d = (\<lambda>st. ((), advance d st))"

text \<open>
  A candidate that neither calls \<open>pause_timing\<close> nor \<open>resume_timing\<close> and takes at least one
  tick per call.
\<close>

definition steady :: "'r candidate \<Rightarrow> bool" where
  "steady f \<longleftrightarrow>
     (\<forall>st. measure_start (snd (f st)) = measure_start st \<and> clock st < clock (snd (f st)))"

section \<open>A conforming generator and distribution\<close>

text \<open>
  An instance of the library parameter, for statements about a concrete run: the step of
  splitmix64 on 64-bit words, and a distribution that scales the 64-bit output \<open>z\<close> to the
  closed interval from \<open>a\<close> to \<open>b\<close> as \<open>a + z * (b - a + 1) div 2 ^ 64\<close>.
\<close>

definition splitmix64_next :: "64 word \<Rightarrow> 64 word \<times> 64 word" where
  "splitmix64_next x =
     (let x1 = x + 0x9e3779b97f4a7c15;
          z1 = (x1 XOR drop_bit 30 x1) * 0xbf58476d1ce4e5b9;
          z2 = (z1 XOR drop_bit 27 z1) * 0x94d049bb133111eb
      in (z2 XOR drop_bit 31 z2, x1))"

definition scaled_draw :: "int \<times> int \<Rightarrow> 64 word \<Rightarrow> int \<times> 64 word" where
  "scaled_draw d g =
     (let (z, g') = splitmix64_next g
      in (fst d + int ((unat z * nat (snd d - fst d + 1)) div 2 ^ 64), g'))"

definition sample_lib :: "(64 word) random_lib" where
  "sample_lib = \<lparr>splitmix64_urng = (\<lambda>s. s), uniform_int_distribution = scaled_draw\<rparr>"

section \<open>Reference functions for the statements\<close>

text \<open>The first \<open>n\<close> keys a distribution \<open>d\<close> yields from generator state \<open>g\<close>, and the state after.\<close>

fun draws :: "'g random_lib \<Rightarrow> int \<times> int \<Rightarrow> nat \<Rightarrow> 'g \<Rightarrow> int list \<times> 'g" where
  "draws lib d 0 g = ([], g)"
| "draws lib d (Suc n) g =
     (let (k, g1) = uniform_int_distribution lib d g;
          (ks, g2) = draws lib d n g1
      in (k # ks, g2))"

text \<open>A key sequence cut into full batches of \<open>B\<close> keys, and the keys left over.\<close>

function batches :: "nat \<Rightarrow> 'a list \<Rightarrow> 'a list list" where
  "batches B xs = (if B = 0 \<or> length xs < B then [] else take B xs # batches B (drop B xs))"
  by pat_completeness auto
termination
  by (relation "measure (\<lambda>(B, xs). length xs)") auto

declare batches.simps [simp del]

definition leftover :: "nat \<Rightarrow> 'a list \<Rightarrow> 'a list" where
  "leftover B xs = drop (B * length (batches B xs)) xs"

text \<open>The range calls among the calls issued to the container.\<close>

fun range_calls :: "call list \<Rightarrow> int list list" where
  "range_calls [] = []"
| "range_calls (Visit k # cs) = range_calls cs"
| "range_calls (VisitRange ks # cs) = ks # range_calls cs"

text \<open>The keys drawn and the calls issued in a run that ended, empty for a run that did not.\<close>

definition keys_drawn :: "ub + 'v \<times> 'g world \<Rightarrow> int list" where
  "keys_drawn r = (case r of Inl e \<Rightarrow> [] | Inr (v, w) \<Rightarrow> drawn w)"

definition calls_issued :: "ub + 'v \<times> 'g world \<Rightarrow> call list" where
  "calls_issued r = (case r of Inl e \<Rightarrow> [] | Inr (v, w) \<Rightarrow> issued w)"

text \<open>The state in which a batched visitor holds the pending keys \<open>P\<close> in its buffer.\<close>

definition bulk_inv :: "'m map_class \<Rightarrow> 'm bulk_visitor \<Rightarrow> int list \<Rightarrow> bool" where
  "bulk_inv M v P \<longleftrightarrow>
     length (bv_keys v) = bulk_visit_size M \<and> bv_i v = int (length P) \<and>
     length P < bulk_visit_size M \<and> take (length P) (bv_keys v) = map Some P"

text \<open>The world in which \<^verbatim>\<open>visit_tester::operator()\<close> starts its loop.\<close>

definition start_world :: "'g random_lib \<Rightarrow> 'g world" where
  "start_world lib = \<lparr>gen = splitmix64_urng lib seed, drawn = [], issued = []\<rparr>"

text \<open>
  The first \<open>k\<close> calls of a candidate from state \<open>st\<close>: the values returned and the state
  after.
\<close>

fun run_calls :: "'r candidate \<Rightarrow> nat \<Rightarrow> timing \<Rightarrow> 'r list \<times> timing" where
  "run_calls f 0 st = ([], st)"
| "run_calls f (Suc k) st =
     (let (r, st1) = f st;
          (rs, st2) = run_calls f k st1
      in (r # rs, st2))"

text \<open>
  The number of keys among \<open>0, \<dots>, N - 1\<close> in the \<open>N\<close> keys a run for size \<open>N\<close> draws.
\<close>

definition hits :: "'g random_lib \<Rightarrow> int \<Rightarrow> nat" where
  "hits lib N =
     length (filter (\<lambda>k. 0 \<le> k \<and> k < N)
       (fst (draws lib (0, 2 * N - 1) (nat N) (splitmix64_urng lib seed))))"

text \<open>
  The events of one row of the driver as the specification describes it: a fresh
  container, the reservation for \<open>N\<close> entries, the insertion of the keys \<open>0\<close> to \<open>N - 1\<close>,
  each mapped to itself, and only then the timed runs of the two strategies (\<open>k1\<close> and
  \<open>k2\<close> of them) with the two throughputs \<open>r1\<close> and \<open>r2\<close> printed.
\<close>

definition row_events :: "'g random_lib \<Rightarrow> int \<Rightarrow> nat \<times> real \<times> nat \<times> real \<Rightarrow> event list" where
  "row_events lib N q =
     (case q of (k1, r1, k2, r2) \<Rightarrow>
        [Construct, Reserve (nat N)] @ map (\<lambda>j. Insert (int j, int j)) [0..<nat N] @
        replicate k1 (Sink (Inr (hits lib N))) @
        [Cout (Out_int N), Cout (Out_str '';''), Cout (Out_double r1), Cout (Out_str '';'')] @
        replicate k2 (Sink (Inr (hits lib N))) @
        [Cout (Out_double r2), Cout Out_endl])"

definition header_events :: "string \<Rightarrow> string \<Rightarrow> event list" where
  "header_events name1 name2 =
     [Cout (Out_str ''visit:''), Cout Out_endl,
      Cout (Out_str ''N;''), Cout (Out_str name1), Cout (Out_str '';''),
      Cout (Out_str name2), Cout Out_endl]"

section \<open>Pause and resume\<close>

text \<open>
  Claim C7. With trial origin \<open>s\<close>, a call of \<open>pause_timing\<close> at time \<open>p\<close> followed by a
  call of \<open>resume_timing\<close> at time \<open>r\<close> moves the origin to \<open>s + (r - p)\<close>, and every
  later elapsed-time reading is the unpaused reading less the paused interval \<open>r - p\<close>.
\<close>

theorem resume_timing_excludes_pause:
  "measure_start (resume_timing (at_time r (pause_timing (at_time p st))))
     = measure_start st + (r - p)
   \<and> elapsed t (resume_timing (at_time r (pause_timing (at_time p st))))
     = elapsed t st - (r - p)"
  by (simp add: resume_timing_def pause_timing_def at_time_def now_def elapsed_def)

section \<open>Batches of a key sequence\<close>

lemma those_eq_Some: "those xs = Some ys \<longleftrightarrow> xs = map Some ys"
  by (induction xs arbitrary: ys) (auto split: option.splits)

lemma batches_short: "length xs < B \<Longrightarrow> batches B xs = []"
  by (subst batches.simps) simp

lemma batches_full: "0 < B \<Longrightarrow> length P = B \<Longrightarrow> batches B (P @ ys) = P # batches B ys"
  by (subst batches.simps) simp

lemma leftover_short: "length xs < B \<Longrightarrow> leftover B xs = xs"
  by (simp add: leftover_def batches_short)

lemma leftover_full: "0 < B \<Longrightarrow> length P = B \<Longrightarrow> leftover B (P @ ys) = leftover B ys"
  by (simp add: leftover_def batches_full)

lemma length_batches: "0 < B \<Longrightarrow> length (batches B xs) = length xs div B"
proof (induction B xs rule: batches.induct)
  case (1 B xs)
  show ?case
  proof (cases "length xs < B")
    case True
    then show ?thesis by (simp add: batches_short)
  next
    case False
    with 1 have "length (batches B (drop B xs)) = (length xs - B) div B" by simp
    moreover have "batches B xs = take B xs # batches B (drop B xs)"
      using False 1(2) by (subst batches.simps) simp
    ultimately show ?thesis using False 1(2)
      by (simp add: le_div_geq)
  qed
qed

lemma batches_lengths: "b \<in> set (batches B xs) \<Longrightarrow> length b = B"
proof (induction B xs rule: batches.induct)
  case (1 B xs)
  show ?case
  proof (cases "B = 0 \<or> length xs < B")
    case True
    then have "batches B xs = []" by (subst batches.simps) simp
    with 1(2) show ?thesis by simp
  next
    case False
    then have "batches B xs = take B xs # batches B (drop B xs)"
      by (subst batches.simps) simp
    with 1 False show ?thesis by auto
  qed
qed

lemma concat_batches: "concat (batches B xs) @ leftover B xs = xs"
proof (induction B xs rule: batches.induct)
  case (1 B xs)
  show ?case
  proof (cases "B = 0 \<or> length xs < B")
    case True
    then have "batches B xs = []" by (subst batches.simps) simp
    then show ?thesis by (simp add: leftover_def)
  next
    case False
    then have e: "batches B xs = take B xs # batches B (drop B xs)"
      by (subst batches.simps) simp
    have "leftover B xs = leftover B (drop B xs)"
      using False by (simp add: leftover_def e add.commute)
    with 1 False e show ?thesis by simp
  qed
qed

lemma length_leftover: "0 < B \<Longrightarrow> length (leftover B xs) = length xs mod B"
  by (simp add: leftover_def length_batches minus_mult_div_eq_mod)

section \<open>The loops of the two strategies\<close>

lemma regular_loop:
  "draws lib (rv_dist v) n (gen w) = (ks, g') \<Longrightarrow>
   visit_loop (regular_visitor_call lib M) n v w =
     Inr (v\<lparr>rv_res := rv_res v + (\<Sum>k\<leftarrow>ks. int (visit M (rv_m v) k))\<rparr>,
          w\<lparr>gen := g', drawn := drawn w @ ks, issued := issued w @ map Visit ks\<rparr>)"
proof (induction n arbitrary: v w ks)
  case 0
  then show ?case by simp
next
  case (Suc n)
  obtain k g1 where d: "uniform_int_distribution lib (rv_dist v) (gen w) = (k, g1)"
    by (cases "uniform_int_distribution lib (rv_dist v) (gen w)")
  obtain ks1 g2 where r: "draws lib (rv_dist v) n g1 = (ks1, g2)"
    by (cases "draws lib (rv_dist v) n g1")
  from Suc.prems d r have ks: "ks = k # ks1" and g: "g' = g2" by simp_all
  let ?v1 = "v\<lparr>rv_res := rv_res v + int (visit M (rv_m v) k)\<rparr>"
  let ?w1 = "w\<lparr>gen := g1, drawn := drawn w @ [k], issued := issued w @ [Visit k]\<rparr>"
  have step: "regular_visitor_call lib M v w = Inr (?v1, ?w1)"
    by (simp add: regular_visitor_call_def draw_def issue_def d)
  have "draws lib (rv_dist ?v1) n (gen ?w1) = (ks1, g')" using r g by simp
  from Suc.IH [OF this] show ?case
    by (simp add: step ks g add.assoc)
qed

lemma bulk_flush_step:
  assumes "bulk_inv M v P"
  shows "\<exists>v'. bulk_visitor_flush M v w = Inr (v', w\<lparr>issued := issued w @ [VisitRange P]\<rparr>) \<and>
           bulk_inv M v' [] \<and> bv_res v' = bv_res v + int (visit_range M (bv_m v) P) \<and>
           bv_m v' = bv_m v \<and> bv_dist v' = bv_dist v"
proof -
  from assms have "those (take (nat (bv_i v)) (bv_keys v)) = Some P"
    by (simp add: bulk_inv_def those_eq_Some)
  with assms show ?thesis
    by (simp add: bulk_visitor_flush_def bulk_inv_def issue_def)
qed

lemma bulk_call_step:
  assumes inv: "bulk_inv M v P"
    and d: "uniform_int_distribution lib (bv_dist v) (gen w) = (k, g1)"
  shows "\<exists>v'. bulk_visitor_call lib M v w =
           Inr (v', w\<lparr>gen := g1, drawn := drawn w @ [k],
                     issued := issued w @ map VisitRange (batches (bulk_visit_size M) (P @ [k]))\<rparr>) \<and>
           bulk_inv M v' (leftover (bulk_visit_size M) (P @ [k])) \<and>
           bv_res v' = bv_res v +
             (\<Sum>b\<leftarrow>batches (bulk_visit_size M) (P @ [k]). int (visit_range M (bv_m v) b)) \<and>
           bv_m v' = bv_m v \<and> bv_dist v' = bv_dist v"
proof -
  let ?B = "bulk_visit_size M"
  let ?v1 = "v\<lparr>bv_keys := (bv_keys v)[nat (bv_i v) := Some k], bv_i := bv_i v + 1\<rparr>"
  let ?w1 = "w\<lparr>gen := g1, drawn := drawn w @ [k]\<rparr>"
  from inv have len: "length (bv_keys v) = ?B" and i: "bv_i v = int (length P)"
    and lt: "length P < ?B" and tk: "take (length P) (bv_keys v) = map Some P"
    by (simp_all add: bulk_inv_def)
  have tk1: "take (Suc (length P)) ((bv_keys v)[length P := Some k]) = map Some (P @ [k])"
    using len lt tk by (simp add: take_Suc_conv_app_nth)
  have call: "bulk_visitor_call lib M v w =
      (if int (length P) + 1 = int ?B then bulk_visitor_flush M ?v1 ?w1 else Inr (?v1, ?w1))"
    using len lt i by (simp add: bulk_visitor_call_def draw_def d Let_def)
  show ?thesis
  proof (cases "Suc (length P) = ?B")
    case True
    then have full: "length (P @ [k]) = ?B" by simp
    have b: "batches ?B (P @ [k]) = [P @ [k]]"
      using batches_full [of ?B "P @ [k]" "[]"] full lt by (simp add: batches_short)
    have l: "leftover ?B (P @ [k]) = []"
      using leftover_full [of ?B "P @ [k]" "[]"] full lt by (simp add: leftover_short)
    have th: "those (take (nat (bv_i ?v1)) (bv_keys ?v1)) = Some (P @ [k])"
      using tk1 i by (simp add: those_eq_Some nat_add_distrib)
    have "bulk_visitor_flush M ?v1 ?w1 =
        Inr (?v1\<lparr>bv_res := bv_res v + int (visit_range M (bv_m v) (P @ [k])), bv_i := 0\<rparr>,
             ?w1\<lparr>issued := issued w @ [VisitRange (P @ [k])]\<rparr>)"
      using th len lt i True by (simp add: bulk_visitor_flush_def issue_def)
    with call True show ?thesis
      using len lt by (simp add: b l bulk_inv_def)
  next
    case False
    with lt have short: "length (P @ [k]) < ?B" by simp
    have b: "batches ?B (P @ [k]) = []" using short by (rule batches_short)
    have l: "leftover ?B (P @ [k]) = P @ [k]" using short by (rule leftover_short)
    from call False have "bulk_visitor_call lib M v w = Inr (?v1, ?w1)" by simp
    then show ?thesis
      using len short i tk1 by (simp add: b l bulk_inv_def)
  qed
qed

lemma bulk_inv_append:
  assumes "0 < B" "length P < B"
  shows "batches B (P @ k # ks) = batches B (P @ [k]) @ batches B (leftover B (P @ [k]) @ ks)"
    and "leftover B (P @ k # ks) = leftover B (leftover B (P @ [k]) @ ks)"
proof -
  show "batches B (P @ k # ks) = batches B (P @ [k]) @ batches B (leftover B (P @ [k]) @ ks)"
  proof (cases "Suc (length P) = B")
    case True
    then have "batches B ((P @ [k]) @ ks) = (P @ [k]) # batches B ks"
      using assms by (intro batches_full) simp_all
    moreover have "batches B (P @ [k]) = [P @ [k]]"
      using batches_full [of B "P @ [k]" "[]"] True assms by (simp add: batches_short)
    moreover have "leftover B (P @ [k]) = []"
      using leftover_full [of B "P @ [k]" "[]"] True assms by (simp add: leftover_short)
    ultimately show ?thesis by simp
  next
    case False
    with assms have "length (P @ [k]) < B" by simp
    then show ?thesis by (simp add: batches_short leftover_short)
  qed
  show "leftover B (P @ k # ks) = leftover B (leftover B (P @ [k]) @ ks)"
  proof (cases "Suc (length P) = B")
    case True
    then have "leftover B ((P @ [k]) @ ks) = leftover B ks"
      using assms by (intro leftover_full) simp_all
    moreover have "leftover B (P @ [k]) = []"
      using leftover_full [of B "P @ [k]" "[]"] True assms by (simp add: leftover_short)
    ultimately show ?thesis by simp
  next
    case False
    with assms have "length (P @ [k]) < B" by simp
    then show ?thesis by (simp add: leftover_short)
  qed
qed

lemma bulk_loop:
  "bulk_inv M v P \<Longrightarrow> draws lib (bv_dist v) n (gen w) = (ks, g') \<Longrightarrow>
   \<exists>v'. visit_loop (bulk_visitor_call lib M) n v w =
           Inr (v', w\<lparr>gen := g', drawn := drawn w @ ks,
                     issued := issued w @ map VisitRange (batches (bulk_visit_size M) (P @ ks))\<rparr>) \<and>
         bulk_inv M v' (leftover (bulk_visit_size M) (P @ ks)) \<and>
         bv_res v' = bv_res v +
           (\<Sum>b\<leftarrow>batches (bulk_visit_size M) (P @ ks). int (visit_range M (bv_m v) b)) \<and>
         bv_m v' = bv_m v \<and> bv_dist v' = bv_dist v"
proof (induction n arbitrary: v w P ks)
  case 0
  then have "length P < bulk_visit_size M" by (simp add: bulk_inv_def)
  with 0 show ?case by (simp add: batches_short leftover_short)
next
  case (Suc n)
  let ?B = "bulk_visit_size M"
  from Suc.prems(1) have lt: "length P < ?B" by (simp add: bulk_inv_def)
  then have pos: "0 < ?B" by simp
  obtain k g1 where d: "uniform_int_distribution lib (bv_dist v) (gen w) = (k, g1)"
    by (cases "uniform_int_distribution lib (bv_dist v) (gen w)")
  obtain ks1 g2 where r: "draws lib (bv_dist v) n g1 = (ks1, g2)"
    by (cases "draws lib (bv_dist v) n g1")
  from Suc.prems(2) d r have ks: "ks = k # ks1" and g: "g' = g2" by simp_all
  from bulk_call_step [OF Suc.prems(1) d] obtain v1 where
    step: "bulk_visitor_call lib M v w =
             Inr (v1, w\<lparr>gen := g1, drawn := drawn w @ [k],
                       issued := issued w @ map VisitRange (batches ?B (P @ [k]))\<rparr>)"
    and inv1: "bulk_inv M v1 (leftover ?B (P @ [k]))"
    and res1: "bv_res v1 = bv_res v + (\<Sum>b\<leftarrow>batches ?B (P @ [k]). int (visit_range M (bv_m v) b))"
    and m1: "bv_m v1 = bv_m v" and d1: "bv_dist v1 = bv_dist v"
    by blast
  let ?w1 = "w\<lparr>gen := g1, drawn := drawn w @ [k],
                issued := issued w @ map VisitRange (batches ?B (P @ [k]))\<rparr>"
  have "draws lib (bv_dist v1) n (gen ?w1) = (ks1, g')" using r g d1 by simp
  from Suc.IH [OF inv1 this] obtain v' where
    loop: "visit_loop (bulk_visitor_call lib M) n v1 ?w1 =
             Inr (v', ?w1\<lparr>gen := g', drawn := drawn ?w1 @ ks1,
                          issued := issued ?w1 @
                            map VisitRange (batches ?B (leftover ?B (P @ [k]) @ ks1))\<rparr>)"
    and inv': "bulk_inv M v' (leftover ?B (leftover ?B (P @ [k]) @ ks1))"
    and res': "bv_res v' = bv_res v1 +
        (\<Sum>b\<leftarrow>batches ?B (leftover ?B (P @ [k]) @ ks1). int (visit_range M (bv_m v1) b))"
    and m': "bv_m v' = bv_m v1" and d': "bv_dist v' = bv_dist v1"
    by blast
  note app = bulk_inv_append [OF pos lt, of k ks1]
  have "visit_loop (bulk_visitor_call lib M) (Suc n) v w =
          Inr (v', w\<lparr>gen := g', drawn := drawn w @ ks,
                    issued := issued w @ map VisitRange (batches ?B (P @ ks))\<rparr>)"
    by (simp add: step loop ks app)
  moreover have "bulk_inv M v' (leftover ?B (P @ ks))"
    using inv' by (simp add: ks app)
  moreover have "bv_res v' = bv_res v + (\<Sum>b\<leftarrow>batches ?B (P @ ks). int (visit_range M (bv_m v) b))"
    by (simp add: res' res1 m1 ks app)
  ultimately show ?case using m' m1 d' d1 by simp
qed

lemma length_draws: "length (fst (draws lib d n g)) = n"
  by (induction n arbitrary: g) (simp_all add: case_prod_unfold Let_def)

lemma bulk_inv_ctor: "0 < bulk_visit_size M \<Longrightarrow> bulk_inv M (bulk_visitor_ctor M m d) []"
  by (simp add: bulk_inv_def bulk_visitor_ctor_def)

lemma regular_drive:
  assumes "draws lib d n (gen w) = (ks, g')"
  shows "drive (regular_visitor lib M) n (regular_visitor_ctor m d) w =
           Inr (\<lparr>rv_m = m, rv_dist = d, rv_res = (\<Sum>k\<leftarrow>ks. int (visit M m k))\<rparr>,
                w\<lparr>gen := g', drawn := drawn w @ ks, issued := issued w @ map Visit ks\<rparr>)"
proof -
  have "draws lib (rv_dist (regular_visitor_ctor m d)) n (gen w) = (ks, g')"
    using assms by (simp add: regular_visitor_ctor_def)
  from regular_loop [OF this, of M] show ?thesis
    by (simp add: drive_def regular_visitor_def regular_visitor_flush_def regular_visitor_ctor_def)
qed

lemma bulk_drive:
  assumes pos: "0 < bulk_visit_size M" and d: "draws lib d n (gen w) = (ks, g')"
  shows "\<exists>v'. drive (bulk_visitor lib M) n (bulk_visitor_ctor M m d) w =
           Inr (v', w\<lparr>gen := g', drawn := drawn w @ ks,
                     issued := issued w @ map VisitRange (batches (bulk_visit_size M) ks)
                                 @ [VisitRange (leftover (bulk_visit_size M) ks)]\<rparr>) \<and>
         bulk_inv M v' [] \<and>
         bv_res v' = (\<Sum>b\<leftarrow>batches (bulk_visit_size M) ks @ [leftover (bulk_visit_size M) ks].
                        int (visit_range M m b))"
proof -
  let ?B = "bulk_visit_size M"
  let ?v0 = "bulk_visitor_ctor M m d"
  have inv0: "bulk_inv M ?v0 []" using pos by (rule bulk_inv_ctor)
  have d0: "draws lib (bv_dist ?v0) n (gen w) = (ks, g')"
    using d by (simp add: bulk_visitor_ctor_def)
  from bulk_loop [OF inv0 d0] obtain v1 where
    loop: "visit_loop (bulk_visitor_call lib M) n ?v0 w =
             Inr (v1, w\<lparr>gen := g', drawn := drawn w @ ks,
                       issued := issued w @ map VisitRange (batches ?B ks)\<rparr>)"
    and inv1: "bulk_inv M v1 (leftover ?B ks)"
    and res1: "bv_res v1 = bv_res ?v0 + (\<Sum>b\<leftarrow>batches ?B ks. int (visit_range M (bv_m ?v0) b))"
    and m1: "bv_m v1 = bv_m ?v0"
    by auto
  let ?w1 = "w\<lparr>gen := g', drawn := drawn w @ ks,
               issued := issued w @ map VisitRange (batches ?B ks)\<rparr>"
  from bulk_flush_step [OF inv1, of ?w1] obtain v2 where
    fl: "bulk_visitor_flush M v1 ?w1 =
           Inr (v2, ?w1\<lparr>issued := issued ?w1 @ [VisitRange (leftover ?B ks)]\<rparr>)"
    and inv2: "bulk_inv M v2 []"
    and res2: "bv_res v2 = bv_res v1 + int (visit_range M (bv_m v1) (leftover ?B ks))"
    by auto
  have "drive (bulk_visitor lib M) n ?v0 w =
          Inr (v2, w\<lparr>gen := g', drawn := drawn w @ ks,
                    issued := issued w @ map VisitRange (batches ?B ks)
                                @ [VisitRange (leftover ?B ks)]\<rparr>)"
    by (simp add: drive_def bulk_visitor_def loop fl)
  moreover have "bv_res v2 = (\<Sum>b\<leftarrow>batches ?B ks @ [leftover ?B ks]. int (visit_range M m b))"
    by (simp add: res2 res1 m1 bulk_visitor_ctor_def)
  ultimately show ?thesis using inv2 by blast
qed

lemma visit_tester_run_defined:
  assumes "1 \<le> N" and "N < 2 ^ 30"
  shows "visit_tester_run V lib m N = drive V (nat N) (ctor V m (0, 2 * N - 1)) (start_world lib)"
  using assms by (simp add: visit_tester_run_def int_min_def int_max_def start_world_def)

lemma visit_tester_run_overflow:
  assumes "2 ^ 30 \<le> N"
  shows "visit_tester_run V lib m N = Inl SignedOverflow"
  using assms by (simp add: visit_tester_run_def int_min_def int_max_def)

section \<open>Evaluating the conforming generator\<close>

lemma draws_numeral:
  "draws lib d (numeral n) g =
     (let (k, g1) = uniform_int_distribution lib d g;
          (ks, g2) = draws lib d (pred_numeral n) g1
      in (k # ks, g2))"
  by (simp add: numeral_eq_Suc)

lemma sample_draws_1:
  "draws sample_lib (0, 1) 1 (splitmix64_urng sample_lib seed) = ([1], 11400714819323480957)"
  by (simp add: sample_lib_def scaled_draw_def splitmix64_next_def Let_def seed_def)

lemma sample_draws_2:
  "draws sample_lib (0, 3) 2 (splitmix64_urng sample_lib seed) = ([3, 1], 4354685564937127826)"
  by (simp add: draws_numeral sample_lib_def scaled_draw_def splitmix64_next_def
      Let_def seed_def)

lemma sample_draws_3:
  "draws sample_lib (0, 5) 3 (splitmix64_urng sample_lib seed) = ([5, 1, 4], 15755400384260326311)"
  by (simp add: draws_numeral sample_lib_def scaled_draw_def splitmix64_next_def
      Let_def seed_def)

lemma scaled_bound:
  fixes z :: "64 word" and a b :: int
  assumes "a \<le> b"
  shows "a + int (unat z * nat (b - a + 1) div 2 ^ 64) \<le> b"
proof -
  have "unat z < 2 ^ 64" using unsigned_less [of z] by simp
  then have "unat z * nat (b - a + 1) < 2 ^ 64 * nat (b - a + 1)"
    using assms by simp
  then have "unat z * nat (b - a + 1) div 2 ^ 64 < nat (b - a + 1)"
    by (simp add: less_mult_imp_div_less mult.commute)
  then show ?thesis using assms by linarith
qed

lemma sample_lib_contract: "uniform_int_contract sample_lib"
  unfolding uniform_int_contract_def
proof (intro allI impI conjI)
  fix a b :: int and g :: "64 word"
  assume "a \<le> b"
  show "a \<le> fst (uniform_int_distribution sample_lib (a, b) g)"
    by (simp add: sample_lib_def scaled_draw_def case_prod_unfold Let_def)
  show "fst (uniform_int_distribution sample_lib (a, b) g) \<le> b"
    using scaled_bound [OF \<open>a \<le> b\<close>, of "fst (splitmix64_next g)"]
    by (simp add: sample_lib_def scaled_draw_def case_prod_unfold Let_def)
qed

section \<open>The dataset\<close>

lemma insert_loop_Suc: "insert_loop (Suc n) me = insert_map (int n, int n) (insert_loop n me)"
  by (simp add: insert_loop_def)

lemma entries_insert_loop:
  "entries (fst (insert_loop n me)) =
     (\<lambda>k. if 0 \<le> k \<and> k < int n \<and> entries (fst me) k = None then Some k
          else entries (fst me) k)"
proof (induction n)
  case 0
  show ?case by (rule ext) (simp add: insert_loop_def)
next
  case (Suc n)
  show ?case
    by (rule ext)
      (auto simp: insert_loop_Suc insert_map_def Suc cfm_insert_def split: option.splits)
qed

lemma reserved_insert_loop: "reserved (fst (insert_loop n me)) = reserved (fst me)"
  by (induction n)
    (simp_all add: insert_loop_def insert_map_def cfm_insert_def split: option.splits)

lemma events_insert_loop:
  "snd (insert_loop n me) = snd me @ map (\<lambda>j. Insert (int j, int j)) [0..<n]"
  by (induction n) (simp_all add: insert_loop_def insert_map_def)

lemma fst_insert_loop: "fst (insert_loop n (c, evs)) = fst (insert_loop n (c, []))"
  by (induction n) (simp_all add: insert_loop_def insert_map_def)

lemma build_dataset_eq:
  "build_dataset N evs =
     (build_map N,
      evs @ [Construct, Reserve (nat N)] @ map (\<lambda>j. Insert (int j, int j)) [0..<nat N])"
proof (rule prod_eqI)
  show "fst (build_dataset N evs) = fst (build_map N,
      evs @ [Construct, Reserve (nat N)] @ map (\<lambda>j. Insert (int j, int j)) [0..<nat N])"
    using fst_insert_loop [of "nat N" "cfm_reserve (nat N) cfm_empty"
        "evs @ [Construct, Reserve (nat N)]"]
      fst_insert_loop [of "nat N" "cfm_reserve (nat N) cfm_empty" "[Construct, Reserve (nat N)]"]
    by (simp add: build_map_def build_dataset_def reserve_map_def construct_map_def)
  show "snd (build_dataset N evs) = snd (build_map N,
      evs @ [Construct, Reserve (nat N)] @ map (\<lambda>j. Insert (int j, int j)) [0..<nat N])"
    by (simp add: build_dataset_def events_insert_loop reserve_map_def construct_map_def)
qed

lemma entries_build_map:
  "entries (build_map N) = (\<lambda>k. if 0 \<le> k \<and> k < N then Some k else None)"
  by (rule ext)
    (simp add: build_map_def build_dataset_def entries_insert_loop reserve_map_def
      construct_map_def cfm_reserve_def cfm_empty_def)

lemma reserved_build_map: "reserved (build_map N) = nat N"
  by (simp add: build_map_def build_dataset_def reserved_insert_loop reserve_map_def
      construct_map_def cfm_reserve_def cfm_empty_def)

section \<open>Hit counts of the container\<close>

lemma cfm_visit_range_sum: "int (cfm_visit_range c ks) = (\<Sum>k\<leftarrow>ks. int (cfm_visit c k))"
  by (induction ks) (simp_all add: cfm_visit_range_def cfm_visit_def split: option.splits)

lemma cfm_visit_range_concat:
  "(\<Sum>b\<leftarrow>bs. int (cfm_visit_range c b)) = int (cfm_visit_range c (concat bs))"
  by (induction bs) (simp_all add: cfm_visit_range_def)

lemma cfm_visit_range_le: "cfm_visit_range c ks \<le> length ks"
  by (simp add: cfm_visit_range_def)

lemma size_t_of_int_small: "n < 2 ^ 64 \<Longrightarrow> size_t_of_int (int n) = n"
  by (simp add: size_t_of_int_def nat_mod_distrib flip: of_nat_power)

lemma visit_tester_regular_cfm:
  assumes "1 \<le> N" and "N < 2 ^ 30"
  shows "visit_tester (regular_visitor lib (cfm_class B)) lib m N =
           Inr (cfm_visit_range m (fst (draws lib (0, 2 * N - 1) (nat N) (splitmix64_urng lib seed))))"
proof -
  obtain ks g' where d: "draws lib (0, 2 * N - 1) (nat N) (gen (start_world lib)) = (ks, g')"
    by (cases "draws lib (0, 2 * N - 1) (nat N) (gen (start_world lib))")
  have "length ks = nat N" using length_draws [of lib "(0, 2 * N - 1)" "nat N"] d
    by (metis fst_conv)
  then have "cfm_visit_range m ks < 2 ^ 64"
    using cfm_visit_range_le [of m ks] assms(2) by (simp add: nat_less_iff) 
  then have "size_t_of_int (int (cfm_visit_range m ks)) = cfm_visit_range m ks"
    by (rule size_t_of_int_small)
  moreover have "visit_tester_run (regular_visitor lib (cfm_class B)) lib m N =
      Inr (\<lparr>rv_m = m, rv_dist = (0, 2 * N - 1), rv_res = int (cfm_visit_range m ks)\<rparr>,
           (start_world lib)\<lparr>gen := g', drawn := drawn (start_world lib) @ ks,
                              issued := issued (start_world lib) @ map Visit ks\<rparr>)"
    using regular_drive [OF d, of "cfm_class B" m]
    by (simp add: visit_tester_run_defined [OF assms] regular_visitor_def cfm_class_def
        cfm_visit_range_sum)
  ultimately show ?thesis using d
    by (simp add: visit_tester_def regular_visitor_def start_world_def)
qed

lemma visit_tester_bulk_cfm:
  assumes "1 \<le> N" and "N < 2 ^ 30" and "0 < B"
  shows "visit_tester (bulk_visitor lib (cfm_class B)) lib m N =
           Inr (cfm_visit_range m (fst (draws lib (0, 2 * N - 1) (nat N) (splitmix64_urng lib seed))))"
proof -
  obtain ks g' where d: "draws lib (0, 2 * N - 1) (nat N) (gen (start_world lib)) = (ks, g')"
    by (cases "draws lib (0, 2 * N - 1) (nat N) (gen (start_world lib))")
  have "length ks = nat N" using length_draws [of lib "(0, 2 * N - 1)" "nat N"] d
    by (metis fst_conv)
  then have "cfm_visit_range m ks < 2 ^ 64"
    using cfm_visit_range_le [of m ks] assms(2) by (simp add: nat_less_iff) 
  then have sz: "size_t_of_int (int (cfm_visit_range m ks)) = cfm_visit_range m ks"
    by (rule size_t_of_int_small)
  have pos: "0 < bulk_visit_size (cfm_class B)" using assms(3) by (simp add: cfm_class_def)
  from bulk_drive [OF pos d, of m] obtain v' w' where
    run: "drive (bulk_visitor lib (cfm_class B)) (nat N)
            (bulk_visitor_ctor (cfm_class B) m (0, 2 * N - 1)) (start_world lib) = Inr (v', w')"
    and res: "bv_res v' = (\<Sum>b\<leftarrow>batches B ks @ [leftover B ks]. int (cfm_visit_range m b))"
    by (auto simp: cfm_class_def)
  have "bv_res v' = int (cfm_visit_range m (concat (batches B ks) @ leftover B ks))"
    unfolding res cfm_visit_range_concat by simp
  then have "bv_res v' = int (cfm_visit_range m ks)"
    by (simp only: concat_batches)
  with run sz d show ?thesis
    by (simp add: visit_tester_def visit_tester_run_defined [OF assms(1,2)] bulk_visitor_def
        start_world_def)
qed

lemma visit_tester_overflow:
  assumes "2 ^ 30 \<le> N"
  shows "visit_tester V lib m N = Inl SignedOverflow"
  by (simp add: visit_tester_def visit_tester_run_overflow [OF assms])

text \<open>
  Claim C1. On the same container \<open>m\<close> and for the same size \<open>N \<ge> 1\<close>, the run of the
  single-key strategy and the run of the batched strategy return the same value. When
  \<open>2 * N - 1\<close> is representable as an \<^verbatim>\<open>int\<close>, that value is the number of keys present in
  \<open>m\<close> among the \<open>N\<close> keys drawn from the generator seeded with the fixed seed.
\<close>

theorem hit_count_equivalence:
  assumes "1 \<le> N" and "0 < B"
  shows "visit_tester (regular_visitor lib (cfm_class B)) lib m N =
           visit_tester (bulk_visitor lib (cfm_class B)) lib m N \<and>
         (N < 2 ^ 30 \<longrightarrow>
            visit_tester (bulk_visitor lib (cfm_class B)) lib m N =
              Inr (cfm_visit_range m
                     (fst (draws lib (0, 2 * N - 1) (nat N) (splitmix64_urng lib seed)))))"
proof (cases "N < 2 ^ 30")
  case True
  with assms show ?thesis
    by (simp add: visit_tester_regular_cfm visit_tester_bulk_cfm)
next
  case False
  then have "2 ^ 30 \<le> N" by simp
  then show ?thesis
    using False by (simp add: visit_tester_overflow)
qed

theorem hit_count_equivalence_witness:
  "visit_tester (regular_visitor sample_lib (cfm_class 2)) sample_lib (build_map 3) 3 = Inr 1 \<and>
   visit_tester (bulk_visitor sample_lib (cfm_class 2)) sample_lib (build_map 3) 3 = Inr 1"
  using hit_count_equivalence [of 3 2 sample_lib "build_map 3"] sample_draws_3
  by (simp add: cfm_visit_range_def entries_build_map)

section \<open>The worlds after a run\<close>

lemma regular_run_world:
  assumes "1 \<le> N" and "N < 2 ^ 30"
    and d: "draws lib (0, 2 * N - 1) (nat N) (splitmix64_urng lib seed) = (ks, g')"
  shows "visit_tester_run (regular_visitor lib M) lib m N =
           Inr (\<lparr>rv_m = m, rv_dist = (0, 2 * N - 1), rv_res = (\<Sum>k\<leftarrow>ks. int (visit M m k))\<rparr>,
                \<lparr>gen = g', drawn = ks, issued = map Visit ks\<rparr>)"
proof -
  have "draws lib (0, 2 * N - 1) (nat N) (gen (start_world lib)) = (ks, g')"
    using d by (simp add: start_world_def)
  from regular_drive [OF this, of M m] show ?thesis
    by (simp add: visit_tester_run_defined [OF assms(1,2)] regular_visitor_def start_world_def)
qed

lemma bulk_run_world:
  assumes "1 \<le> N" and "N < 2 ^ 30" and pos: "0 < bulk_visit_size M"
    and d: "draws lib (0, 2 * N - 1) (nat N) (splitmix64_urng lib seed) = (ks, g')"
  shows "\<exists>v'. visit_tester_run (bulk_visitor lib M) lib m N =
           Inr (v', \<lparr>gen = g', drawn = ks,
                     issued = map VisitRange (batches (bulk_visit_size M) ks)
                                @ [VisitRange (leftover (bulk_visit_size M) ks)]\<rparr>) \<and>
         bulk_inv M v' [] \<and>
         bv_res v' = (\<Sum>b\<leftarrow>batches (bulk_visit_size M) ks @ [leftover (bulk_visit_size M) ks].
                        int (visit_range M m b))"
proof -
  have "draws lib (0, 2 * N - 1) (nat N) (gen (start_world lib)) = (ks, g')"
    using d by (simp add: start_world_def)
  from bulk_drive [OF pos this, of m] show ?thesis
    by (simp add: visit_tester_run_defined [OF assms(1,2)] bulk_visitor_def start_world_def)
qed

lemma range_calls_append: "range_calls (xs @ ys) = range_calls xs @ range_calls ys"
  by (induction xs rule: range_calls.induct) simp_all

lemma range_calls_map: "range_calls (map VisitRange bs) = bs"
  by (induction bs) simp_all

lemma draws_in_range:
  assumes "uniform_int_contract lib" and "a \<le> b"
  shows "k \<in> set (fst (draws lib (a, b) n g)) \<Longrightarrow> a \<le> k \<and> k \<le> b"
proof (induction n arbitrary: g)
  case 0
  then show ?case by simp
next
  case (Suc n)
  obtain k1 g1 where d: "uniform_int_distribution lib (a, b) g = (k1, g1)"
    by (cases "uniform_int_distribution lib (a, b) g")
  from assms d have "a \<le> k1 \<and> k1 \<le> b"
    unfolding uniform_int_contract_def by (metis fst_conv)
  moreover from Suc.prems d have "k = k1 \<or> k \<in> set (fst (draws lib (a, b) n g1))"
    by (simp add: case_prod_unfold Let_def)
  ultimately show ?case using Suc.IH by blast
qed

text \<open>
  Claim C5. For a size \<open>N\<close>, every run seeds its generator with the same constant, so the
  run of the single-key strategy and the run of the batched strategy draw the same \<open>N\<close>
  keys, whatever the containers they visit: the keys the distribution yields from the
  generator seeded with \<open>seed\<close>. The single-key run passes them to the container one by
  one and the batched run in ranges, in the order drawn.
\<close>

theorem same_key_sequence:
  assumes "1 \<le> N" and "N < 2 ^ 30" and "0 < bulk_visit_size M2"
  shows "\<exists>v1 w1 v2 w2.
           visit_tester_run (regular_visitor lib M1) lib m1 N = Inr (v1, w1) \<and>
           visit_tester_run (bulk_visitor lib M2) lib m2 N = Inr (v2, w2) \<and>
           drawn w1 = fst (draws lib (0, 2 * N - 1) (nat N) (splitmix64_urng lib seed)) \<and>
           drawn w2 = drawn w1 \<and> gen w2 = gen w1 \<and> length (drawn w1) = nat N \<and>
           issued w1 = map Visit (drawn w1) \<and> concat (range_calls (issued w2)) = drawn w2"
proof -
  obtain ks g' where d: "draws lib (0, 2 * N - 1) (nat N) (splitmix64_urng lib seed) = (ks, g')"
    by (cases "draws lib (0, 2 * N - 1) (nat N) (splitmix64_urng lib seed)")
  have len: "length ks = nat N"
    using length_draws [of lib "(0, 2 * N - 1)" "nat N" "splitmix64_urng lib seed"] d by simp
  note r = regular_run_world [OF assms(1,2) d, of M1 m1]
  from bulk_run_world [OF assms d, of m2] obtain v2 where
    b: "visit_tester_run (bulk_visitor lib M2) lib m2 N =
          Inr (v2, \<lparr>gen = g', drawn = ks,
                    issued = map VisitRange (batches (bulk_visit_size M2) ks)
                               @ [VisitRange (leftover (bulk_visit_size M2) ks)]\<rparr>)"
    by blast
  have "concat (range_calls (map VisitRange (batches (bulk_visit_size M2) ks)
          @ [VisitRange (leftover (bulk_visit_size M2) ks)])) = ks"
    by (simp add: range_calls_append range_calls_map concat_batches)
  with r b d len show ?thesis by simp
qed

theorem same_key_sequence_witness:
  "keys_drawn (visit_tester_run (regular_visitor sample_lib (cfm_class 2)) sample_lib cfm_empty 3)
     = [5, 1, 4] \<and>
   keys_drawn (visit_tester_run (bulk_visitor sample_lib (cfm_class 2)) sample_lib (build_map 3) 3)
     = [5, 1, 4]"
  using same_key_sequence [of 3 "cfm_class 2" sample_lib "cfm_class 2" cfm_empty "build_map 3"]
    sample_draws_3
  by (auto simp: keys_drawn_def cfm_class_def)

text \<open>
  Claim C4, as stated, fails: the distribution is constructed as
  \<^verbatim>\<open>distribution_type{0,2*N-1}\<close>, and the bounds of \<^verbatim>\<open>std::uniform_int_distribution\<close> are
  both inclusive. At \<open>N = 1\<close> the run with the conforming generator draws the key
  \<open>1 = 2 * N - 1\<close>, which is outside the half-open range.
\<close>

theorem half_open_range_counterexample:
  "keys_drawn (visit_tester_run (regular_visitor sample_lib (cfm_class 2)) sample_lib (build_map 1) 1)
     = [1] \<and> \<not> (1 :: int) \<le> 2 * 1 - 2"
  using regular_run_world [of 1 sample_lib "[1]" 11400714819323480957 "cfm_class 2" "build_map 1"]
    sample_draws_1
  by (simp add: keys_drawn_def)

text \<open>
  Claim C4, amended. For every size \<open>N \<ge> 1\<close> whose bound \<open>2 * N - 1\<close> is representable as
  an \<^verbatim>\<open>int\<close>, and a distribution that keeps to its closed interval, every key drawn in a
  run of either strategy lies in the closed range from \<open>0\<close> to \<open>2 * N - 1\<close>.
\<close>

theorem drawn_keys_in_closed_range:
  assumes "uniform_int_contract lib" and "1 \<le> N" and "N < 2 ^ 30"
    and "0 < bulk_visit_size M"
  shows "\<exists>v1 w1 v2 w2.
           visit_tester_run (regular_visitor lib M) lib m N = Inr (v1, w1) \<and>
           visit_tester_run (bulk_visitor lib M) lib m N = Inr (v2, w2) \<and>
           (\<forall>k \<in> set (drawn w1). 0 \<le> k \<and> k \<le> 2 * N - 1) \<and>
           (\<forall>k \<in> set (drawn w2). 0 \<le> k \<and> k \<le> 2 * N - 1)"
proof -
  obtain ks g' where d: "draws lib (0, 2 * N - 1) (nat N) (splitmix64_urng lib seed) = (ks, g')"
    by (cases "draws lib (0, 2 * N - 1) (nat N) (splitmix64_urng lib seed)")
  have "0 \<le> 2 * N - 1" using assms(2) by simp
  from draws_in_range [OF assms(1) this, of _ "nat N" "splitmix64_urng lib seed"] d
  have rng: "\<forall>k \<in> set ks. 0 \<le> k \<and> k \<le> 2 * N - 1" by simp
  note r = regular_run_world [OF assms(2,3) d, of M m]
  from bulk_run_world [OF assms(2,3,4) d, of m] obtain v2 where
    b: "visit_tester_run (bulk_visitor lib M) lib m N =
          Inr (v2, \<lparr>gen = g', drawn = ks,
                    issued = map VisitRange (batches (bulk_visit_size M) ks)
                               @ [VisitRange (leftover (bulk_visit_size M) ks)]\<rparr>)"
    by blast
  from r b rng show ?thesis by simp
qed

theorem drawn_keys_in_closed_range_witness:
  "keys_drawn (visit_tester_run (bulk_visitor sample_lib (cfm_class 2)) sample_lib cfm_empty 2)
     = [3, 1] \<and> (3 :: int) \<le> 2 * 2 - 1"
  using drawn_keys_in_closed_range [OF sample_lib_contract, of 2 "cfm_class 2" cfm_empty]
    bulk_run_world [of 2 "cfm_class 2" sample_lib "[3, 1]" 4354685564937127826 cfm_empty]
    sample_draws_2
  by (auto simp: keys_drawn_def cfm_class_def)

section \<open>Calls issued by the batched strategy\<close>

lemma bulk_flush_empty:
  assumes "bv_i v = 0"
  shows "bulk_visitor_flush M v w =
           Inr (v\<lparr>bv_res := bv_res v + int (visit_range M (bv_m v) []), bv_i := 0\<rparr>,
                w\<lparr>issued := issued w @ [VisitRange []]\<rparr>)"
  using assms by (simp add: bulk_visitor_flush_def issue_def)

text \<open>
  Claim C3, as stated, fails: \<^verbatim>\<open>flush\<close> calls \<^verbatim>\<open>m.visit\<close> whatever the cursor is. With
  capacity 2, a run of \<open>2 = 1 * 2 + 0\<close> keys issues the full batch and then a second call,
  on an empty range; and \<^verbatim>\<open>flush\<close> on a visitor just constructed issues a call too.
\<close>

theorem flush_empty_counterexample:
  "calls_issued (visit_tester_run (bulk_visitor sample_lib (cfm_class 2)) sample_lib cfm_empty 2)
     = [VisitRange [3, 1], VisitRange []] \<and>
   calls_issued (bulk_visitor_flush (cfm_class 2) (bulk_visitor_ctor (cfm_class 2) cfm_empty (0, 3))
      (start_world sample_lib))
     = [VisitRange []]"
proof -
  have b: "batches 2 [3, 1 :: int] = [[3, 1]]"
    using batches_full [of 2 "[3, 1 :: int]" "[]"] by (simp add: batches_short)
  have l: "leftover 2 [3, 1 :: int] = []"
    using leftover_full [of 2 "[3, 1 :: int]" "[]"] by (simp add: leftover_short)
  have "calls_issued (visit_tester_run (bulk_visitor sample_lib (cfm_class 2)) sample_lib cfm_empty 2)
      = [VisitRange [3, 1], VisitRange []]"
    using bulk_run_world [of 2 "cfm_class 2" sample_lib "[3, 1]" 4354685564937127826 cfm_empty]
      sample_draws_2
    by (auto simp: calls_issued_def cfm_class_def b l)
  moreover have "calls_issued (bulk_visitor_flush (cfm_class 2)
      (bulk_visitor_ctor (cfm_class 2) cfm_empty (0, 3)) (start_world sample_lib)) = [VisitRange []]"
    by (simp add: calls_issued_def bulk_flush_empty bulk_visitor_ctor_def start_world_def)
  ultimately show ?thesis by simp
qed

text \<open>
  Claim C3, amended. For a capacity \<open>C > 0\<close>, a run of \<open>k * C + r\<close> keys with \<open>r < C\<close>
  followed by one \<^verbatim>\<open>flush\<close> issues exactly \<open>k\<close> range calls of \<open>C\<close> keys each and then exactly
  one more range call, made by the \<^verbatim>\<open>flush\<close>, over the \<open>r\<close> keys that remain: an empty range
  when \<open>r = 0\<close>. The calls cover the keys drawn, in order, and the cursor is \<open>0\<close> afterwards.
  A \<^verbatim>\<open>flush\<close> of the buffer so emptied issues one call over an empty range and leaves the
  cursor at \<open>0\<close>.
\<close>

theorem bulk_visit_calls:
  assumes "0 < C" and "bulk_visit_size M = C" and "r < C"
    and "draws lib d (k * C + r) (gen w) = (ks, g')"
  shows "\<exists>v'. drive (bulk_visitor lib M) (k * C + r) (bulk_visitor_ctor M m d) w =
           Inr (v', w\<lparr>gen := g', drawn := drawn w @ ks,
                     issued := issued w @ map VisitRange (batches C ks)
                                 @ [VisitRange (leftover C ks)]\<rparr>) \<and>
         length (batches C ks) = k \<and> (\<forall>b \<in> set (batches C ks). length b = C) \<and>
         length (leftover C ks) = r \<and> concat (batches C ks) @ leftover C ks = ks \<and>
         bv_i v' = 0 \<and>
         (\<forall>w'. bulk_visitor_flush M v' w' =
                 Inr (v'\<lparr>bv_res := bv_res v' + int (visit_range M (bv_m v') []), bv_i := 0\<rparr>,
                      w'\<lparr>issued := issued w' @ [VisitRange []]\<rparr>))"
proof -
  have pos: "0 < bulk_visit_size M" using assms(1,2) by simp
  from bulk_drive [OF pos assms(4), of m] obtain v' where
    run: "drive (bulk_visitor lib M) (k * C + r) (bulk_visitor_ctor M m d) w =
            Inr (v', w\<lparr>gen := g', drawn := drawn w @ ks,
                      issued := issued w @ map VisitRange (batches C ks)
                                  @ [VisitRange (leftover C ks)]\<rparr>)"
    and inv: "bulk_inv M v' []"
    using assms(2) by auto
  have len: "length ks = k * C + r"
    using length_draws [of lib d "k * C + r" "gen w"] assms(4) by simp
  have "length (batches C ks) = k"
    using assms(1,3) by (simp add: length_batches len)
  moreover have "length (leftover C ks) = r"
    using assms(1,3) by (simp add: length_leftover len)
  moreover have "\<forall>b \<in> set (batches C ks). length b = C"
    by (simp add: batches_lengths)
  moreover have i0: "bv_i v' = 0" using inv by (simp add: bulk_inv_def)
  moreover note bulk_flush_empty [OF i0, of M] concat_batches [of C ks] run
  ultimately show ?thesis by blast
qed

theorem bulk_visit_calls_witness:
  "calls_issued (drive (bulk_visitor sample_lib (cfm_class 2)) (1 * 2 + 1)
      (bulk_visitor_ctor (cfm_class 2) cfm_empty (0, 5)) (start_world sample_lib))
     = [VisitRange [5, 1], VisitRange [4]]"
proof -
  have b: "batches 2 [5, 1, 4 :: int] = [[5, 1]]"
    using batches_full [of 2 "[5, 1 :: int]" "[4]"] by (simp add: batches_short)
  have l: "leftover 2 [5, 1, 4 :: int] = [4]"
    using leftover_full [of 2 "[5, 1 :: int]" "[4]"] by (simp add: leftover_short)
  have d: "draws sample_lib (0, 5) (1 * 2 + 1) (gen (start_world sample_lib))
      = ([5, 1, 4], 15755400384260326311)"
    using sample_draws_3 by (simp add: start_world_def)
  have c: "bulk_visit_size (cfm_class 2) = 2" by (simp add: cfm_class_def)
  from bulk_visit_calls [OF _ c _ d, where m = cfm_empty] show ?thesis
    by (auto simp: calls_issued_def b l start_world_def)
qed

section \<open>Invariants of the batched visitor\<close>

lemma bulk_call_inv:
  assumes "bulk_inv M v P"
  shows "\<exists>v' w' P'. bulk_visitor_call lib M v w = Inr (v', w') \<and> bulk_inv M v' P' \<and>
           bv_res v \<le> bv_res v'"
proof -
  obtain k g1 where d: "uniform_int_distribution lib (bv_dist v) (gen w) = (k, g1)"
    by (cases "uniform_int_distribution lib (bv_dist v) (gen w)")
  from bulk_call_step [OF assms d] obtain v' where
    "bulk_visitor_call lib M v w =
       Inr (v', w\<lparr>gen := g1, drawn := drawn w @ [k],
                 issued := issued w @ map VisitRange (batches (bulk_visit_size M) (P @ [k]))\<rparr>)"
    and "bulk_inv M v' (leftover (bulk_visit_size M) (P @ [k]))"
    and "bv_res v' = bv_res v +
           (\<Sum>b\<leftarrow>batches (bulk_visit_size M) (P @ [k]). int (visit_range M (bv_m v) b))"
    by blast
  moreover have "0 \<le> (\<Sum>b\<leftarrow>batches (bulk_visit_size M) (P @ [k]). int (visit_range M (bv_m v) b))"
    by (rule sum_list_nonneg) auto
  ultimately show ?thesis by force
qed

lemma bulk_flush_inv:
  assumes "bulk_inv M v P"
  shows "\<exists>v' w'. bulk_visitor_flush M v w = Inr (v', w') \<and> bulk_inv M v' [] \<and>
           bv_res v \<le> bv_res v'"
  using bulk_flush_step [OF assms, of w] by force

lemma bulk_ops_inv:
  "bulk_inv M v P \<Longrightarrow>
   \<exists>v' w' P'. bulk_visitor_ops lib M ops v w = Inr (v', w') \<and> bulk_inv M v' P' \<and>
     bv_res v \<le> bv_res v'"
proof (induction ops arbitrary: v w P)
  case Nil
  then show ?case by auto
next
  case (Cons op ops)
  show ?case
  proof (cases op)
    case Call
    from bulk_call_inv [OF Cons.prems, of lib w] obtain v1 w1 P1 where
      s: "bulk_visitor_call lib M v w = Inr (v1, w1)" and i: "bulk_inv M v1 P1"
      and m: "bv_res v \<le> bv_res v1" by blast
    from Cons.IH [OF i, of w1] obtain v' w' P' where
      "bulk_visitor_ops lib M ops v1 w1 = Inr (v', w')" "bulk_inv M v' P'" "bv_res v1 \<le> bv_res v'"
      by blast
    with s m Call show ?thesis by force
  next
    case Flush
    from bulk_flush_inv [OF Cons.prems, of w] obtain v1 w1 where
      s: "bulk_visitor_flush M v w = Inr (v1, w1)" and i: "bulk_inv M v1 []"
      and m: "bv_res v \<le> bv_res v1" by blast
    from Cons.IH [OF i, of w1] obtain v' w' P' where
      "bulk_visitor_ops lib M ops v1 w1 = Inr (v', w')" "bulk_inv M v' P'" "bv_res v1 \<le> bv_res v'"
      by blast
    with s m Flush show ?thesis by force
  qed
qed

text \<open>
  Claim C9. From a visitor just constructed, with a capacity \<open>N > 0\<close>, every finite sequence
  of calls of \<^verbatim>\<open>operator()\<close> and \<^verbatim>\<open>flush\<close> runs without an access outside \<^verbatim>\<open>keys\<close>, and after
  each call of the sequence the cursor satisfies \<open>0 \<le> i < N\<close> and the array still has its
  \<open>N\<close> elements.
\<close>

theorem cursor_in_bounds:
  assumes "0 < bulk_visit_size M"
  shows "\<exists>v' w'. bulk_visitor_ops lib M (take j ops) (bulk_visitor_ctor M m d) w = Inr (v', w') \<and>
           0 \<le> bv_i v' \<and> bv_i v' < int (bulk_visit_size M) \<and>
           length (bv_keys v') = bulk_visit_size M"
proof -
  from bulk_ops_inv [OF bulk_inv_ctor [OF assms, of m d], where lib = lib and ops = "take j ops" and w = w]
  obtain v' w' P' where
    "bulk_visitor_ops lib M (take j ops) (bulk_visitor_ctor M m d) w = Inr (v', w')"
    and "bulk_inv M v' P'" by blast
  then show ?thesis by (auto simp: bulk_inv_def)
qed

theorem cursor_in_bounds_witness:
  "map_sum id (\<lambda>(v, w). (bv_i v, length (bv_keys v)))
     (bulk_visitor_ops sample_lib (cfm_class 2) (take 4 [Call, Flush, Call, Call, Call])
        (bulk_visitor_ctor (cfm_class 2) cfm_empty (0, 5)) (start_world sample_lib))
   = Inr (0, 2)"
proof -
  have pos: "0 < bulk_visit_size (cfm_class 2)" by (simp add: cfm_class_def)
  have ops: "take 4 [Call, Flush, Call, Call, Call] = [Call, Flush, Call, Call]" by simp
  obtain v' w' where
    run: "bulk_visitor_ops sample_lib (cfm_class 2) (take 4 [Call, Flush, Call, Call, Call])
            (bulk_visitor_ctor (cfm_class 2) cfm_empty (0, 5)) (start_world sample_lib) = Inr (v', w')"
    and "length (bv_keys v') = 2"
    using cursor_in_bounds [OF pos, of sample_lib 4 "[Call, Flush, Call, Call, Call]" cfm_empty
        "(0, 5)" "start_world sample_lib"]
    by (auto simp: cfm_class_def)
  moreover have "map_sum id (\<lambda>(v, w). bv_i v)
     (bulk_visitor_ops sample_lib (cfm_class 2) [Call, Flush, Call, Call]
        (bulk_visitor_ctor (cfm_class 2) cfm_empty (0, 5)) (start_world sample_lib)) = Inr 0"
    by (simp add: bulk_visitor_call_def bulk_visitor_flush_def bulk_visitor_ctor_def draw_def
        issue_def cfm_class_def start_world_def sample_lib_def scaled_draw_def Let_def
        case_prod_unfold numeral_2_eq_2)
  ultimately show ?thesis by (simp add: ops)
qed

section \<open>Bounds on the hit count\<close>

lemma regular_call_mono:
  "regular_visitor_call lib M v w = Inr (v', w') \<Longrightarrow> rv_res v \<le> rv_res v'"
  by (auto simp: regular_visitor_call_def case_prod_unfold Let_def)

lemma bulk_flush_mono:
  "bulk_visitor_flush M v w = Inr (v', w') \<Longrightarrow> bv_res v \<le> bv_res v'"
  by (auto simp: bulk_visitor_flush_def split: if_splits option.splits)

lemma bulk_call_mono:
  "bulk_visitor_call lib M v w = Inr (v', w') \<Longrightarrow> bv_res v \<le> bv_res v'"
  by (auto simp: bulk_visitor_call_def case_prod_unfold Let_def split: if_splits
      dest!: bulk_flush_mono)

lemma sum_visit_le:
  assumes "\<forall>k. visit M m k \<le> 1"
  shows "(\<Sum>k\<leftarrow>ks. int (visit M m k)) \<le> int (length ks)"
proof (induction ks)
  case Nil
  then show ?case by simp
next
  case (Cons k ks)
  from assms have "int (visit M m k) \<le> 1" by (simp add: of_nat_le_iff [of _ 1, simplified])
  with Cons show ?case by simp
qed

lemma sum_visit_range_le:
  assumes "\<forall>ks. visit_range M m ks \<le> length ks"
  shows "(\<Sum>b\<leftarrow>bs. int (visit_range M m b)) \<le> int (length (concat bs))"
proof (induction bs)
  case Nil
  then show ?case by simp
next
  case (Cons b bs)
  from assms have "int (visit_range M m b) \<le> int (length b)" by simp
  with Cons show ?case by simp
qed

text \<open>
  Claim C10. Under the contract of the container (a single-key visit returns 0 or 1, a
  visit of a range of \<open>k\<close> keys returns at most \<open>k\<close>), no call of \<^verbatim>\<open>operator()\<close> or \<^verbatim>\<open>flush\<close>
  of either strategy decreases \<^verbatim>\<open>res\<close>, and after \<open>n\<close> keys and the final \<^verbatim>\<open>flush\<close> the hit
  count of either strategy satisfies \<open>0 \<le> res \<le> n\<close>.
\<close>

theorem hit_count_bounds:
  assumes "container_contract M m" and "0 < bulk_visit_size M"
  shows "(\<forall>v (w :: 'g world) v' w'.
            regular_visitor_call lib M v w = Inr (v', w') \<longrightarrow> rv_res v \<le> rv_res v') \<and>
         (\<forall>v (w :: 'g world) v' w'.
            regular_visitor_flush v w = Inr (v', w') \<longrightarrow> rv_res v \<le> rv_res v') \<and>
         (\<forall>v (w :: 'g world) v' w'.
            bulk_visitor_call lib M v w = Inr (v', w') \<longrightarrow> bv_res v \<le> bv_res v') \<and>
         (\<forall>v (w :: 'g world) v' w'.
            bulk_visitor_flush M v w = Inr (v', w') \<longrightarrow> bv_res v \<le> bv_res v') \<and>
         (\<exists>v' w'. drive (regular_visitor lib M) n (regular_visitor_ctor m d) w0 = Inr (v', w') \<and>
            0 \<le> rv_res v' \<and> rv_res v' \<le> int n) \<and>
         (\<exists>v' w'. drive (bulk_visitor lib M) n (bulk_visitor_ctor M m d) w0 = Inr (v', w') \<and>
            0 \<le> bv_res v' \<and> bv_res v' \<le> int n)"
proof -
  obtain ks g' where dr: "draws lib d n (gen w0) = (ks, g')"
    by (cases "draws lib d n (gen w0)")
  have len: "length ks = n" using length_draws [of lib d n "gen w0"] dr by simp
  from assms(1) have c1: "\<forall>k. visit M m k \<le> 1" and c2: "\<forall>ks. visit_range M m ks \<le> length ks"
    by (simp_all add: container_contract_def)
  let ?B = "bulk_visit_size M"
  have reg: "\<exists>v' w'. drive (regular_visitor lib M) n (regular_visitor_ctor m d) w0 = Inr (v', w') \<and>
      0 \<le> rv_res v' \<and> rv_res v' \<le> int n"
  proof -
    have "0 \<le> (\<Sum>k\<leftarrow>ks. int (visit M m k))" by (rule sum_list_nonneg) auto
    moreover have "(\<Sum>k\<leftarrow>ks. int (visit M m k)) \<le> int n"
      using sum_visit_le [OF c1, of ks] len by simp
    ultimately show ?thesis
      using regular_drive [OF dr, of M m] by simp
  qed
  have blk: "\<exists>v' w'. drive (bulk_visitor lib M) n (bulk_visitor_ctor M m d) w0 = Inr (v', w') \<and>
      0 \<le> bv_res v' \<and> bv_res v' \<le> int n"
  proof -
    from bulk_drive [OF assms(2) dr, of m] obtain v' w' where
      run: "drive (bulk_visitor lib M) n (bulk_visitor_ctor M m d) w0 = Inr (v', w')"
      and res: "bv_res v' = (\<Sum>b\<leftarrow>batches ?B ks @ [leftover ?B ks]. int (visit_range M m b))"
      by blast
    have "0 \<le> (\<Sum>b\<leftarrow>batches ?B ks @ [leftover ?B ks]. int (visit_range M m b))"
      by (rule sum_list_nonneg) auto
    moreover have "(\<Sum>b\<leftarrow>batches ?B ks @ [leftover ?B ks]. int (visit_range M m b))
        \<le> int (length (concat (batches ?B ks @ [leftover ?B ks])))"
      by (rule sum_visit_range_le [OF c2])
    moreover have "length (concat (batches ?B ks @ [leftover ?B ks])) = length ks"
      using concat_batches [of ?B ks] by simp
    ultimately show ?thesis using run res len by (simp del: map_append concat_append sum_list_append)
  qed
  show ?thesis
    using reg blk
    by (auto dest: regular_call_mono bulk_call_mono bulk_flush_mono
        simp: regular_visitor_flush_def)
qed

lemma cfm_contract: "container_contract (cfm_class B) c"
  by (simp add: container_contract_def cfm_class_def cfm_visit_def cfm_visit_range_def
      split: option.splits)

theorem hit_count_bounds_witness:
  "map_sum id (\<lambda>(v, w). rv_res v)
     (drive (regular_visitor sample_lib (cfm_class 2)) 3
        (regular_visitor_ctor (build_map 3) (0, 5)) (start_world sample_lib)) = Inr 1 \<and>
   (1 :: int) \<le> int 3"
proof -
  have pos: "0 < bulk_visit_size (cfm_class 2)" by (simp add: cfm_class_def)
  have d: "draws sample_lib (0, 5) 3 (gen (start_world sample_lib))
      = ([5, 1, 4], 15755400384260326311)"
    using sample_draws_3 by (simp add: start_world_def)
  from hit_count_bounds [OF cfm_contract pos, of sample_lib 3 "build_map 3" "(0, 5)"
      "start_world sample_lib"]
  obtain v' w' where
    "drive (regular_visitor sample_lib (cfm_class 2)) 3
       (regular_visitor_ctor (build_map 3) (0, 5)) (start_world sample_lib) = Inr (v', w')"
    and "rv_res v' \<le> int 3"
    by blast
  with regular_drive [OF d, of "cfm_class 2" "build_map 3"] show ?thesis
    by (auto simp: cfm_class_def cfm_visit_def entries_build_map)
qed

section \<open>Evaluating double-precision arithmetic\<close>

lemma bit_length_0: "bit_length 0 = 0"
  by (simp add: bit_length.simps)

lemma bit_length_1: "bit_length (Suc 0) = Suc 0"
  by (simp add: bit_length.simps)

lemma bit_length_numeral: "bit_length (numeral k) = Suc (bit_length (numeral k div 2))"
  by (subst bit_length.simps) simp

lemmas fl_eval = fl_def ilog2_def round_even_def pow2_def Let_def
  bit_length_0 bit_length_1 bit_length_numeral

section \<open>The trial loop\<close>

lemma run_calls_snoc:
  "run_calls f (Suc k) st =
     (let (rs, st1) = run_calls f k st; (r, st2) = f st1 in (rs @ [r], st2))"
  by (induction k arbitrary: st) (simp_all add: case_prod_unfold Let_def)

text \<open>
  The loop, from a state reached after \<open>n\<close> calls: it makes \<open>k \<ge> 1\<close> further calls of the
  candidate, one after the other, and stops at the first reading of the clock that is at
  least the minimum after the trial origin.
\<close>

lemma trial_loop_exit:
  assumes "trial_loop tps f n rs st = Some r"
  shows "\<exists>k\<ge>1. r = (n + int k, rs @ fst (run_calls f k st), now (snd (run_calls f k st)),
                     snd (run_calls f k st)) \<and>
           (\<forall>j. 1 \<le> j \<and> j < k \<longrightarrow>
              less_than_ms tps (elapsed (now (snd (run_calls f j st))) (snd (run_calls f j st)))
                min_time_per_trial) \<and>
           \<not> less_than_ms tps (elapsed (now (snd (run_calls f k st))) (snd (run_calls f k st)))
                min_time_per_trial"
proof (rule trial_loop.raw_induct
    [where P = "\<lambda>tps f n rs st r. \<exists>k\<ge>1.
       r = (n + int k, rs @ fst (run_calls f k st), now (snd (run_calls f k st)),
            snd (run_calls f k st)) \<and>
       (\<forall>j. 1 \<le> j \<and> j < k \<longrightarrow>
          less_than_ms tps (elapsed (now (snd (run_calls f j st))) (snd (run_calls f j st)))
            min_time_per_trial) \<and>
       \<not> less_than_ms tps (elapsed (now (snd (run_calls f k st))) (snd (run_calls f k st)))
            min_time_per_trial",
      OF _ assms])
  fix loop :: "int \<Rightarrow> 'a candidate \<Rightarrow> int \<Rightarrow> 'a list \<Rightarrow> timing
      \<Rightarrow> (int \<times> 'a list \<times> int \<times> timing) option"
    and tps f n rs st r
  let ?late = "\<lambda>f st j. less_than_ms tps (elapsed (now (snd (run_calls f j st)))
      (snd (run_calls f j st))) min_time_per_trial"
  assume IH: "\<And>tps f n rs st r. loop tps f n rs st = Some r \<Longrightarrow>
      \<exists>k\<ge>1. r = (n + int k, rs @ fst (run_calls f k st), now (snd (run_calls f k st)),
                   snd (run_calls f k st)) \<and>
        (\<forall>j. 1 \<le> j \<and> j < k \<longrightarrow>
           less_than_ms tps (elapsed (now (snd (run_calls f j st))) (snd (run_calls f j st)))
             min_time_per_trial) \<and>
        \<not> less_than_ms tps (elapsed (now (snd (run_calls f k st))) (snd (run_calls f k st)))
             min_time_per_trial"
    and body: "(let (x, st1) = f st; rs1 = rs @ [x]; n1 = n + 1; t2 = now st1
       in if less_than_ms tps (elapsed t2 st1) min_time_per_trial
          then loop tps f n1 rs1 st1 else Some (n1, rs1, t2, st1)) = Some r"
  obtain x st1 where fx: "f st = (x, st1)" by (cases "f st")
  have one: "run_calls f (Suc 0) st = ([x], st1)" by (simp add: fx)
  have step: "run_calls f (Suc j) st = (x # fst (run_calls f j st1), snd (run_calls f j st1))" for j
    by (simp add: fx case_prod_unfold Let_def)
  show "\<exists>k\<ge>1. r = (n + int k, rs @ fst (run_calls f k st), now (snd (run_calls f k st)),
                     snd (run_calls f k st)) \<and>
      (\<forall>j. 1 \<le> j \<and> j < k \<longrightarrow> ?late f st j) \<and> \<not> ?late f st k"
  proof (cases "less_than_ms tps (elapsed (now st1) st1) min_time_per_trial")
    case False
    with body fx have "r = (n + 1, rs @ [x], now st1, st1)" by (simp add: Let_def)
    with False one show ?thesis
      by (intro exI [of _ "Suc 0"]) simp
  next
    case True
    with body fx have "loop tps f (n + 1) (rs @ [x]) st1 = Some r" by (simp add: Let_def)
    from IH [OF this] obtain k where k: "1 \<le> k"
      and r: "r = (n + 1 + int k, (rs @ [x]) @ fst (run_calls f k st1),
                   now (snd (run_calls f k st1)), snd (run_calls f k st1))"
      and before: "\<forall>j. 1 \<le> j \<and> j < k \<longrightarrow> ?late f st1 j"
      and last: "\<not> ?late f st1 k"
      by blast
    have "\<forall>j. 1 \<le> j \<and> j < Suc k \<longrightarrow> ?late f st j"
    proof (intro allI impI)
      fix j assume j: "1 \<le> j \<and> j < Suc k"
      then obtain i where i: "j = Suc i" by (cases j) auto
      show "?late f st j"
      proof (cases "i = 0")
        case True
        with i \<open>less_than_ms tps (elapsed (now st1) st1) min_time_per_trial\<close> one
        show ?thesis by simp
      next
        case False
        with i j have "1 \<le> i \<and> i < k" by simp
        with before have "?late f st1 i" by blast
        then show ?thesis by (simp add: i step del: run_calls.simps)
      qed
    qed
    moreover have "\<not> ?late f st (Suc k)" using last by (simp add: step del: run_calls.simps)
    moreover have "r = (n + int (Suc k), rs @ fst (run_calls f (Suc k) st),
        now (snd (run_calls f (Suc k) st)), snd (run_calls f (Suc k) st))"
      using r by (simp add: step del: run_calls.simps)
    ultimately show ?thesis
      by (intro exI [of _ "Suc k"]) simp
  qed
qed

lemma run_trial_exit:
  assumes "run_trial tps f s = Some (t, s')"
  shows "1 \<le> t_runs t \<and>
         run_calls f (nat (t_runs t)) (s\<lparr>measure_start := now s\<rparr>) = (t_sink t, s') \<and>
         (\<forall>j. 1 \<le> j \<and> j < nat (t_runs t) \<longrightarrow>
            less_than_ms tps
              (elapsed (now (snd (run_calls f j (s\<lparr>measure_start := now s\<rparr>))))
                 (snd (run_calls f j (s\<lparr>measure_start := now s\<rparr>))))
              min_time_per_trial) \<and>
         t_span t = elapsed (now s') s' \<and>
         min_time_per_trial * tps \<le> t_span t * 1000 \<and>
         t_average t = double_div (seconds tps (t_span t)) (double_of_int (t_runs t))"
proof -
  let ?s0 = "s\<lparr>measure_start := now s\<rparr>"
  from assms obtain n rs t2 where
    l: "trial_loop tps f 0 [] ?s0 = Some (n, rs, t2, s')"
    and t: "t = \<lparr>t_runs = n, t_sink = rs, t_span = elapsed t2 s',
                 t_average = double_div (seconds tps (elapsed t2 s')) (double_of_int n)\<rparr>"
    by (auto simp: run_trial_def split: option.splits)
  from trial_loop_exit [OF l] obtain k where k: "1 \<le> k"
    and r: "(n, rs, t2, s') = (0 + int k, [] @ fst (run_calls f k ?s0),
              now (snd (run_calls f k ?s0)), snd (run_calls f k ?s0))"
    and before: "\<forall>j. 1 \<le> j \<and> j < k \<longrightarrow>
        less_than_ms tps (elapsed (now (snd (run_calls f j ?s0))) (snd (run_calls f j ?s0)))
          min_time_per_trial"
    and last: "\<not> less_than_ms tps (elapsed (now (snd (run_calls f k ?s0)))
        (snd (run_calls f k ?s0))) min_time_per_trial"
    by blast
  from r have n: "n = int k" and rs: "rs = fst (run_calls f k ?s0)"
    and t2: "t2 = now s'" and s': "s' = snd (run_calls f k ?s0)"
    by simp_all
  have calls: "run_calls f (nat n) ?s0 = (rs, s')"
    by (simp add: n rs s')
  have "min_time_per_trial * tps \<le> elapsed t2 s' * 1000"
    using last by (simp add: less_than_ms_def t2 flip: s')
  with k n calls before t2 show ?thesis
    by (simp add: t)
qed

lemma run_trials_exit:
  "run_trials tps f k st = Some (ts, st') \<Longrightarrow> t \<in> set ts \<Longrightarrow>
   \<exists>s s'. run_trial tps f s = Some (t, s')"
proof (induction k arbitrary: st ts)
  case 0
  then show ?case by simp
next
  case (Suc k)
  from Suc.prems(1) obtain t1 st1 ts1 where
    one: "run_trial tps f st = Some (t1, st1)"
    and rest: "run_trials tps f k st1 = Some (ts1, st')"
    and ts: "ts = t1 # ts1"
    by (auto split: option.splits)
  from Suc.prems(2) ts consider "t = t1" | "t \<in> set ts1" by auto
  then show ?case
  proof cases
    case 1
    with one show ?thesis by blast
  next
    case 2
    with Suc.IH [OF rest] show ?thesis by blast
  qed
qed

lemma length_run_trials: "run_trials tps f k st = Some (ts, st') \<Longrightarrow> length ts = k"
  by (induction k arbitrary: st ts) (auto split: option.splits)

text \<open>
  The loop does exit for a candidate that takes time and leaves the trial origin alone.
\<close>

lemma trial_loop_steady:
  assumes "0 < tps" and "steady f"
  shows "trial_loop tps f n rs st \<noteq> None"
proof (induction "nat (min_time_per_trial * tps - (clock st - measure_start st) * 1000)"
    arbitrary: n rs st rule: less_induct)
  case less
  obtain x st1 where fx: "f st = (x, st1)" by (cases "f st")
  from assms(2) fx have ms: "measure_start st1 = measure_start st" and ck: "clock st < clock st1"
    unfolding steady_def by (metis snd_conv)+
  show ?case
  proof (cases "less_than_ms tps (elapsed (now st1) st1) min_time_per_trial")
    case False
    with fx show ?thesis
      by (subst trial_loop.simps) (simp add: Let_def)
  next
    case True
    then have "(clock st1 - measure_start st1) * 1000 < min_time_per_trial * tps"
      by (simp add: less_than_ms_def now_def elapsed_def)
    with ms ck have "nat (min_time_per_trial * tps - (clock st1 - measure_start st1) * 1000)
        < nat (min_time_per_trial * tps - (clock st - measure_start st) * 1000)"
      by simp
    from less [OF this] have "trial_loop tps f (n + 1) (rs @ [x]) st1 \<noteq> None" .
    with True fx show ?thesis
      by (subst trial_loop.simps) (simp add: Let_def)
  qed
qed

lemma run_trial_steady:
  assumes "0 < tps" and "steady f"
  shows "run_trial tps f st \<noteq> None"
  using trial_loop_steady [OF assms, of 0 "[]" "st\<lparr>measure_start := now st\<rparr>"]
  by (auto simp: run_trial_def)

lemma run_trials_steady:
  assumes "0 < tps" and "steady f"
  shows "run_trials tps f k st \<noteq> None"
proof (induction k arbitrary: st)
  case 0
  then show ?case by simp
next
  case (Suc k)
  from run_trial_steady [OF assms, of st] obtain t st1 where
    "run_trial tps f st = Some (t, st1)" by auto
  moreover from Suc have "run_trials tps f k st1 \<noteq> None" .
  ultimately show ?case by auto
qed

lemma measure_fn_steady:
  assumes "0 < tps" and "steady f"
  shows "measure_fn tps f st \<noteq> None"
  using run_trials_steady [OF assms, of num_trials st]
  by (auto simp: measure_fn_def measure_trials_def)

section \<open>Trials of a candidate of fixed duration\<close>

lemma steady_advance: "0 < c \<Longrightarrow> steady (\<lambda>st. (x, advance c st))"
  by (simp add: steady_def advance_def)

lemma run_calls_advance:
  "run_calls (\<lambda>st. (x, advance c st)) k st = (replicate k x, advance (int k * c) st)"
proof (induction k arbitrary: st)
  case 0
  show ?case by (simp add: advance_def)
next
  case (Suc k)
  have "advance (int k * c) (advance c st) = advance (int (Suc k) * c) st"
    by (simp add: advance_def algebra_simps)
  then show ?case by (simp add: Suc)
qed

lemma run_trial_advance:
  assumes "0 < c" and "0 < tps" and "1 \<le> K"
    and before: "\<forall>j. 1 \<le> j \<and> j < K \<longrightarrow> less_than_ms tps (int j * c) min_time_per_trial"
    and last: "\<not> less_than_ms tps (int K * c) min_time_per_trial"
  shows "run_trial tps (\<lambda>st. (x, advance c st)) st =
           Some (\<lparr>t_runs = int K, t_sink = replicate K x, t_span = int K * c,
                  t_average = double_div (seconds tps (int K * c)) (double_of_int (int K))\<rparr>,
                 st\<lparr>clock := clock st + int K * c, measure_start := clock st\<rparr>)"
proof -
  let ?f = "\<lambda>st. (x, advance c st)"
  let ?s0 = "st\<lparr>measure_start := now st\<rparr>"
  have el: "elapsed (now (snd (run_calls ?f j ?s0))) (snd (run_calls ?f j ?s0)) = int j * c" for j
    by (simp only: run_calls_advance snd_conv) (simp add: advance_def elapsed_def now_def)
  from run_trial_steady [OF assms(2) steady_advance [OF assms(1)], of x st]
  obtain t s' where rt: "run_trial tps ?f st = Some (t, s')" by auto
  note ex = run_trial_exit [OF rt]
  from ex have k1: "1 \<le> t_runs t" by blast
  from ex have "\<forall>j. 1 \<le> j \<and> j < nat (t_runs t) \<longrightarrow>
      less_than_ms tps (int j * c) min_time_per_trial"
    by (simp only: el) blast
  with last assms(3) have le: "nat (t_runs t) \<le> K"
    by (meson not_le_imp_less)
  from ex have sp: "t_span t = elapsed (now s') s'" and calls:
    "run_calls ?f (nat (t_runs t)) ?s0 = (t_sink t, s')" by blast+
  from calls have s': "s' = snd (run_calls ?f (nat (t_runs t)) ?s0)"
    and sink: "t_sink t = fst (run_calls ?f (nat (t_runs t)) ?s0)" by simp_all
  from ex have "min_time_per_trial * tps \<le> t_span t * 1000" by blast
  then have "\<not> less_than_ms tps (int (nat (t_runs t)) * c) min_time_per_trial"
    by (simp add: sp s' el less_than_ms_def del: of_nat_nat)
  moreover have "1 \<le> nat (t_runs t)" using k1 by simp
  ultimately have "\<not> nat (t_runs t) < K" using before by blast
  with le have K: "nat (t_runs t) = K" by simp
  then have runs: "t_runs t = int K" using k1 by simp
  from ex have avg: "t_average t = double_div (seconds tps (t_span t)) (double_of_int (t_runs t))"
    by blast
  have span: "t_span t = int K * c" by (simp add: sp s' K el)
  have "s' = st\<lparr>clock := clock st + int K * c, measure_start := clock st\<rparr>"
    by (simp only: s' K run_calls_advance snd_conv) (simp add: advance_def now_def)
  moreover have "t = \<lparr>t_runs = int K, t_sink = replicate K x, t_span = int K * c,
      t_average = double_div (seconds tps (int K * c)) (double_of_int (int K))\<rparr>"
    by (simp add: runs span avg sink K run_calls_advance)
  ultimately show ?thesis using rt by simp
qed

lemma run_trials_advance:
  assumes "\<And>st. run_trial tps f st =
      Some (T, st\<lparr>clock := clock st + d, measure_start := clock st\<rparr>)"
  shows "run_trials tps f n st =
           Some (replicate n T,
                 st\<lparr>clock := clock st + int n * d,
                    measure_start := (if n = 0 then measure_start st
                                      else clock st + (int n - 1) * d)\<rparr>)"
proof (induction n arbitrary: st)
  case 0
  show ?case by simp
next
  case (Suc n)
  show ?case
    by (auto simp: assms Suc algebra_simps)
qed

lemma average_250: "double_div (seconds 1000 250) (double_of_int 1) = 1 / 4"
  by (simp add: seconds_def double_div_def double_of_int_def fl_eval)

lemma average_3125:
  "double_div (seconds 1000000 200000) (double_of_int 3125) = 4722366482869645 / 2 ^ 66"
  by (simp add: seconds_def double_div_def double_of_int_def fl_eval)

lemma run_trial_fixed_cost_250:
  "run_trial 1000 (fixed_cost 250) st =
     Some (\<lparr>t_runs = 1, t_sink = [()], t_span = 250, t_average = 1 / 4\<rparr>,
           st\<lparr>clock := clock st + 250, measure_start := clock st\<rparr>)"
  using run_trial_advance [of 250 1000 1 "()" st] average_250
  by (simp add: fixed_cost_def less_than_ms_def min_time_per_trial_def)

lemma run_trial_fixed_cost_64:
  "run_trial 1000000 (fixed_cost 64) st =
     Some (\<lparr>t_runs = 3125, t_sink = replicate 3125 (), t_span = 200000,
            t_average = 4722366482869645 / 2 ^ 66\<rparr>,
           st\<lparr>clock := clock st + 200000, measure_start := clock st\<rparr>)"
  using run_trial_advance [of 64 1000000 3125 "()" st] average_3125
  by (simp add: fixed_cost_def less_than_ms_def min_time_per_trial_def)

text \<open>
  Claim C6, as stated, fails in its last part: the average is stored as a \<^verbatim>\<open>double\<close>, and
  the run count times the stored average can be less than the elapsed time. With a clock
  of microseconds and a candidate of 64 microseconds, every trial has 3125 runs and ends
  at exactly 200 ms, and 3125 times its average is below 200 ms.
\<close>

theorem average_rounding_counterexample:
  "measure_trials 1000000 (fixed_cost 64) \<lparr>clock = 0, measure_start = 0, measure_pause = 0\<rparr> =
     Some (replicate 10 \<lparr>t_runs = 3125, t_sink = replicate 3125 (), t_span = 200000,
                         t_average = 4722366482869645 / 2 ^ 66\<rparr>,
           \<lparr>clock = 2000000, measure_start = 1800000, measure_pause = 0\<rparr>) \<and>
   real_of_int 3125 * (4722366482869645 / 2 ^ 66) < 200 / 1000"
  by (simp add: measure_trials_def num_trials_def
      run_trials_advance [of 1000000 "fixed_cost 64" _ 200000, OF run_trial_fixed_cost_64])

text \<open>
  Claim C6, amended. Every trial of \<^verbatim>\<open>measure\<close> is a run of the loop from some state with the
  trial origin set to the clock: the candidate is applied once after the other, as many
  times as the run count says and at least once, the loop goes on while the elapsed time
  read after a call is below 200 ms and is left at the first reading of at least 200 ms,
  and the average recorded is the elapsed time in seconds divided by the run count in
  \<^verbatim>\<open>double\<close> arithmetic (it is rounded, so the run count times the average need not reach
  200 ms). There are \<open>num_trials\<close> trials.
\<close>

theorem trial_minimum_duration:
  assumes "measure_trials tps f st = Some (ts, st')" and "t \<in> set ts"
  shows "length ts = num_trials \<and>
         (\<exists>s s'. run_trial tps f s = Some (t, s') \<and>
            1 \<le> t_runs t \<and>
            run_calls f (nat (t_runs t)) (s\<lparr>measure_start := now s\<rparr>) = (t_sink t, s') \<and>
            (\<forall>j. 1 \<le> j \<and> j < nat (t_runs t) \<longrightarrow>
               less_than_ms tps
                 (elapsed (now (snd (run_calls f j (s\<lparr>measure_start := now s\<rparr>))))
                    (snd (run_calls f j (s\<lparr>measure_start := now s\<rparr>))))
                 min_time_per_trial) \<and>
            t_span t = elapsed (now s') s' \<and>
            min_time_per_trial * tps \<le> t_span t * 1000 \<and>
            t_average t = double_div (seconds tps (t_span t)) (double_of_int (t_runs t)))"
proof -
  from assms(1) have r: "run_trials tps f num_trials st = Some (ts, st')"
    by (simp add: measure_trials_def)
  from run_trials_exit [OF r assms(2)] obtain s s' where
    rt: "run_trial tps f s = Some (t, s')" by blast
  from run_trial_exit [OF rt] rt length_run_trials [OF r] show ?thesis by blast
qed

theorem trial_minimum_duration_witness:
  "measure_trials 1000 (fixed_cost 250) \<lparr>clock = 0, measure_start = 0, measure_pause = 0\<rparr> =
     Some (replicate 10 \<lparr>t_runs = 1, t_sink = [()], t_span = 250, t_average = 1 / 4\<rparr>,
           \<lparr>clock = 2500, measure_start = 2250, measure_pause = 0\<rparr>) \<and>
   min_time_per_trial * 1000 \<le> 250 * 1000 \<and>
   1 / 4 = double_div (seconds 1000 250) (double_of_int 1)"
proof -
  let ?T = "\<lparr>t_runs = 1, t_sink = [()], t_span = 250, t_average = 1 / 4\<rparr>"
  have run: "measure_trials 1000 (fixed_cost 250)
      \<lparr>clock = 0, measure_start = 0, measure_pause = 0\<rparr> =
     Some (replicate 10 ?T, \<lparr>clock = 2500, measure_start = 2250, measure_pause = 0\<rparr>)"
    by (simp add: measure_trials_def num_trials_def
        run_trials_advance [of 1000 "fixed_cost 250" _ 250, OF run_trial_fixed_cost_250])
  from trial_minimum_duration [OF run, of ?T]
  have "min_time_per_trial * 1000 \<le> 250 * 1000 \<and>
      1 / 4 = double_div (seconds 1000 250) (double_of_int 1)"
    by auto
  with run show ?thesis by blast
qed

section \<open>The aggregation of the trial averages\<close>

lemma trim_ends: "butlast (butlast (tl (tl ys))) = take (length ys - 4) (drop 2 ys)"
proof -
  have "tl (tl ys) = drop 2 ys"
    by (simp add: numeral_2_eq_2 drop_Suc)
  then show ?thesis
    by (simp add: butlast_conv_take)
qed

lemma aggregate_trimmed: "aggregate xs = double_mean (trimmed xs)"
  by (simp add: aggregate_def double_mean_def trimmed_def trim_ends)

lemma sort_mset_cong: "mset ys = mset xs \<Longrightarrow> sort ys = sort (xs :: real list)"
  by (rule properties_for_sort) simp_all

lemma sort_sample: "sort [1, 2, 3, 4, 5, 6, 7, 8, 9, 100 :: real] = [1, 2, 3, 4, 5, 6, 7, 8, 9, 100]"
  by simp

lemma double_six: "double_of_int 6 = 6"
  by (simp add: double_of_int_def fl_eval)

lemma double_sum_exact:
  "(\<forall>i\<le>length ys. fl (sum_list (take i ys)) = sum_list (take i ys)) \<Longrightarrow>
   foldl double_add 0 ys = sum_list ys"
proof (induction ys rule: rev_induct)
  case Nil
  show ?case by simp
next
  case (snoc y ys)
  have "\<forall>i\<le>length ys. fl (sum_list (take i ys)) = sum_list (take i ys)"
  proof (intro allI impI)
    fix i assume "i \<le> length ys"
    with snoc.prems [rule_format, of i] show "fl (sum_list (take i ys)) = sum_list (take i ys)"
      by simp
  qed
  then have "foldl double_add 0 ys = sum_list ys" by (rule snoc.IH)
  moreover from snoc.prems [rule_format, of "Suc (length ys)"]
  have "fl (sum_list ys + y) = sum_list ys + y" by simp
  ultimately show ?case by (simp add: double_add_def [of "sum_list ys" y])
qed

lemma sample_sum: "foldl double_add 0 [3, 4, 5, 6, 7, 8] = 33"
  by (simp add: double_add_def fl_eval)

lemma sample_quotient: "double_div 33 6 = 11 / 2"
  by (simp add: double_div_def fl_eval)

lemma fifth: "fl (1 / 5) = 3602879701896397 / 2 ^ 54"
  by (simp add: fl_eval)

lemma fifth_sum:
  "foldl double_add 0
     [3602879701896397 / 2 ^ 54, 3602879701896397 / 2 ^ 54, 3602879701896397 / 2 ^ 54,
      3602879701896397 / 2 ^ 54, 3602879701896397 / 2 ^ 54, 3602879701896397 / 2 ^ 54]
   = 5404319552844595 / 2 ^ 52"
  by (simp add: double_add_def fl_eval)

lemma fifth_quotient: "double_div (5404319552844595 / 2 ^ 52) 6 = 7205759403792793 / 2 ^ 55"
  by (simp add: double_div_def fl_eval)

lemma sort_replicate: "sort (replicate n (x :: real)) = replicate n x"
  by (rule sorted_sort_id) simp

lemma length_six: "int (length [a, b, c, d, e, f]) = 6"
  by simp

lemma trimmed_replicate_10:
  "trimmed (replicate 10 (x :: real)) = [x, x, x, x, x, x]"
  by (simp add: trimmed_def sort_replicate) (simp add: numeral_eq_Suc)

lemma sample_exact:
  "fl 0 = 0 \<and> fl 3 = 3 \<and> fl 7 = 7 \<and> fl 12 = 12 \<and> fl 18 = 18 \<and> fl 25 = 25 \<and> fl 33 = 33 \<and>
   fl (11 / 2) = 11 / 2"
  by (simp add: fl_eval)

lemma sample_partial_sums:
  "\<forall>i\<le>6. fl (sum_list (take i [3, 4, 5, 6, 7, 8])) = sum_list (take i [3, 4, 5, 6, 7, 8])"
proof (intro allI impI)
  fix i :: nat
  assume "i \<le> 6"
  then consider "i = 0" | "i = 1" | "i = 2" | "i = 3" | "i = 4" | "i = 5" | "i = 6"
    by linarith
  then show "fl (sum_list (take i [3, 4, 5, 6, 7, 8])) = sum_list (take i [3, 4, 5, 6, 7, 8])"
    by cases (simp_all add: sample_exact)
qed

text \<open>
  Claim C2, as stated, fails: the mean is computed in \<^verbatim>\<open>double\<close>, each addition and the
  division rounded. For ten averages all equal to the \<^verbatim>\<open>double\<close> nearest to \<open>0.2\<close>, the six
  kept values have that value as their arithmetic mean, and the result is the next
  \<^verbatim>\<open>double\<close> below it.
\<close>

theorem rounded_mean_counterexample:
  "aggregate (replicate 10 (fl (1 / 5))) = 7205759403792793 / 2 ^ 55 \<and>
   exact_mean (trimmed (replicate 10 (fl (1 / 5)))) = 3602879701896397 / 2 ^ 54 \<and>
   aggregate (replicate 10 (fl (1 / 5))) < exact_mean (trimmed (replicate 10 (fl (1 / 5))))"
proof -
  have a: "aggregate (replicate 10 (fl (1 / 5))) = 7205759403792793 / 2 ^ 55"
    by (simp only: aggregate_trimmed trimmed_replicate_10 double_mean_def length_six fifth
        fifth_sum double_six fifth_quotient)
  have m: "exact_mean (trimmed (replicate 10 (fl (1 / 5)))) = 3602879701896397 / 2 ^ 54"
    by (simp add: trimmed_replicate_10 exact_mean_def fifth)
  show ?thesis unfolding a m by simp
qed

text \<open>
  Claim C2, amended. On the \<open>num_trials = 10\<close> trial averages, the last two statements of
  \<^verbatim>\<open>measure\<close> sort the averages ascending, discard the two smallest and the two largest and
  return the mean of the six that remain as computed in \<^verbatim>\<open>double\<close>: their sum, accumulated
  in ascending order with every addition rounded, divided by six and rounded. The result
  depends on the multiset of the averages only; it is the arithmetic mean whenever the
  partial sums and the mean are representable; and the averages
  \<open>1, 2, 3, 4, 5, 6, 7, 8, 9, 100\<close> in any order yield exactly \<open>5.5\<close>.
\<close>

theorem trimmed_mean_aggregation:
  assumes "length xs = num_trials"
  shows "aggregate xs = trimmed_mean_spec xs \<and>
         trimmed xs = take 6 (drop 2 (sort xs)) \<and>
         length (trimmed xs) = 6 \<and>
         aggregate xs = double_div (foldl double_add 0 (trimmed xs)) 6 \<and>
         (mset ys = mset xs \<longrightarrow> aggregate ys = aggregate xs) \<and>
         ((\<forall>i\<le>6. fl (sum_list (take i (trimmed xs))) = sum_list (take i (trimmed xs))) \<and>
          fl (exact_mean (trimmed xs)) = exact_mean (trimmed xs) \<longrightarrow>
            aggregate xs = exact_mean (trimmed xs)) \<and>
         (mset xs = mset [1, 2, 3, 4, 5, 6, 7, 8, 9, 100] \<longrightarrow> aggregate xs = 11 / 2)"
proof (intro conjI impI)
  have len: "length xs = 10" using assms by (simp add: num_trials_def)
  show "aggregate xs = trimmed_mean_spec xs"
    by (simp add: aggregate_trimmed trimmed_mean_spec_def)
  show t: "trimmed xs = take 6 (drop 2 (sort xs))"
    by (simp add: trimmed_def trim_ends len)
  show l6: "length (trimmed xs) = 6" by (simp add: t len)
  show a: "aggregate xs = double_div (foldl double_add 0 (trimmed xs)) 6"
    by (simp add: aggregate_trimmed double_mean_def l6 double_six)
  show "aggregate ys = aggregate xs" if "mset ys = mset xs"
  proof -
    from that have "sort ys = sort xs" by (rule sort_mset_cong)
    then show ?thesis by (simp add: aggregate_def)
  qed
  show "aggregate xs = exact_mean (trimmed xs)"
    if "(\<forall>i\<le>6. fl (sum_list (take i (trimmed xs))) = sum_list (take i (trimmed xs))) \<and>
        fl (exact_mean (trimmed xs)) = exact_mean (trimmed xs)"
  proof -
    from that have "\<forall>i\<le>length (trimmed xs).
        fl (sum_list (take i (trimmed xs))) = sum_list (take i (trimmed xs))"
      by (simp add: l6)
    then have "foldl double_add 0 (trimmed xs) = sum_list (trimmed xs)"
      by (rule double_sum_exact)
    with that show ?thesis
      by (simp add: a double_div_def exact_mean_def l6)
  qed
  show "aggregate xs = 11 / 2" if "mset xs = mset [1, 2, 3, 4, 5, 6, 7, 8, 9, 100]"
  proof -
    from that have "sort xs = sort [1, 2, 3, 4, 5, 6, 7, 8, 9, 100]" by (rule sort_mset_cong)
    then have "sort xs = [1, 2, 3, 4, 5, 6, 7, 8, 9, 100]" by (simp only: sort_sample)
    then have "trimmed xs = [3, 4, 5, 6, 7, 8]" by (simp add: t)
    then show ?thesis by (simp only: a sample_sum sample_quotient)
  qed
qed

theorem trimmed_mean_aggregation_witness:
  "aggregate [100, 3, 9, 1, 7, 5, 2, 8, 6, 4] = 11 / 2 \<and>
   trimmed_mean_spec [100, 3, 9, 1, 7, 5, 2, 8, 6, 4] = 11 / 2 \<and>
   trimmed [100, 3, 9, 1, 7, 5, 2, 8, 6, 4] = [3, 4, 5, 6, 7, 8] \<and>
   exact_mean [3, 4, 5, 6, 7, 8] = 11 / 2 \<and>
   aggregate [4, 6, 8, 2, 5, 7, 1, 9, 3, 100] = aggregate [100, 3, 9, 1, 7, 5, 2, 8, 6, 4]"
proof -
  let ?xs = "[100, 3, 9, 1, 7, 5, 2, 8, 6, 4 :: real]"
  let ?ys = "[4, 6, 8, 2, 5, 7, 1, 9, 3, 100 :: real]"
  have m: "mset ?xs = mset [1, 2, 3, 4, 5, 6, 7, 8, 9, 100]" by simp
  have p: "mset ?ys = mset ?xs" by simp
  have l: "length ?xs = num_trials" by (simp add: num_trials_def)
  note t = trimmed_mean_aggregation [OF l, of ?ys]
  from t m have a: "aggregate ?xs = 11 / 2" by blast
  from t have s: "aggregate ?xs = trimmed_mean_spec ?xs" by blast
  from t have "trimmed ?xs = take 6 (drop 2 (sort ?xs))" by blast
  then have k: "trimmed ?xs = [3, 4, 5, 6, 7, 8]" by simp
  have e: "exact_mean [3, 4, 5, 6, 7, 8] = 11 / 2" by (simp add: exact_mean_def)
  from t have "(\<forall>i\<le>6. fl (sum_list (take i (trimmed ?xs))) = sum_list (take i (trimmed ?xs))) \<and>
      fl (exact_mean (trimmed ?xs)) = exact_mean (trimmed ?xs) \<longrightarrow>
      aggregate ?xs = exact_mean (trimmed ?xs)" by blast
  then have "aggregate ?xs = exact_mean [3, 4, 5, 6, 7, 8]"
    unfolding k using sample_partial_sums sample_exact by (simp only: e)
  from t p have q: "aggregate ?ys = aggregate ?xs" by blast
  from a s k e q show ?thesis by simp
qed

section \<open>The driver\<close>

lemma dom_build_map: "dom (entries (build_map N)) = {0..<N}"
  by (auto simp: entries_build_map dom_def)

lemma hits_build_map:
  "cfm_visit_range (build_map N)
     (fst (draws lib (0, 2 * N - 1) (nat N) (splitmix64_urng lib seed))) = hits lib N"
  by (simp add: cfm_visit_range_def entries_build_map hits_def)

lemma bind_regular_build_map:
  assumes "1 \<le> N" and "N < 2 ^ 30"
  shows "bind_visit_tester elapse (regular_visitor lib (cfm_class B)) lib (build_map N) N
           = (\<lambda>st. (Inr (hits lib N), elapse st))"
  by (simp add: bind_visit_tester_def visit_tester_regular_cfm [OF assms] hits_build_map)

lemma bind_bulk_build_map:
  assumes "1 \<le> N" and "N < 2 ^ 30" and "0 < B"
  shows "bind_visit_tester elapse (bulk_visitor lib (cfm_class B)) lib (build_map N) N
           = (\<lambda>st. (Inr (hits lib N), elapse st))"
  by (simp add: bind_visit_tester_def visit_tester_bulk_cfm [OF assms] hits_build_map)

lemma run_calls_const:
  "fst (run_calls (\<lambda>st. (x, elapse st)) k st) = replicate k x"
  by (induction k arbitrary: st) (simp_all add: case_prod_unfold)

lemma sink_const:
  assumes "\<forall>t\<in>set ts. \<exists>k\<ge>1. t_sink t = replicate k x"
  shows "\<exists>k\<ge>length ts. concat (map t_sink ts) = replicate k x"
  using assms
proof (induction ts)
  case Nil
  show ?case by simp
next
  case (Cons t ts)
  from Cons.prems obtain k1 where k1: "1 \<le> k1" "t_sink t = replicate k1 x" by auto
  from Cons obtain k2 where k2: "length ts \<le> k2" "concat (map t_sink ts) = replicate k2 x"
    by auto
  have "concat (map t_sink (t # ts)) = replicate (k1 + k2) x"
    by (simp add: k1 k2 replicate_add)
  moreover have "length (t # ts) \<le> k1 + k2" using k1 k2 by simp
  ultimately show ?case by blast
qed

lemma measure_fn_sink:
  assumes "measure_fn tps (\<lambda>st. (x, elapse st)) st = Some (t, rs, st')"
  shows "\<exists>k\<ge>num_trials. rs = replicate k x"
proof -
  let ?f = "\<lambda>st. (x, elapse st)"
  from assms obtain ts where
    r: "run_trials tps ?f num_trials st = Some (ts, st')" and rs: "rs = concat (map t_sink ts)"
    by (auto simp: measure_fn_def measure_trials_def split: option.splits)
  have "\<forall>t\<in>set ts. \<exists>k\<ge>1. t_sink t = replicate k x"
  proof
    fix t assume "t \<in> set ts"
    from run_trials_exit [OF r this] obtain s s' where rt: "run_trial tps ?f s = Some (t, s')"
      by blast
    from run_trial_exit [OF rt] have "1 \<le> t_runs t"
      and "run_calls ?f (nat (t_runs t)) (s\<lparr>measure_start := now s\<rparr>) = (t_sink t, s')"
      by blast+
    then have "1 \<le> nat (t_runs t)" and "t_sink t = replicate (nat (t_runs t)) x"
      using run_calls_const [of x elapse "nat (t_runs t)" "s\<lparr>measure_start := now s\<rparr>"]
      by simp_all
    then show "\<exists>k\<ge>1. t_sink t = replicate k x" by blast
  qed
  from sink_const [OF this] length_run_trials [OF r] rs show ?thesis by simp
qed

lemma measure_logged_sink:
  assumes "measure_logged tps (\<lambda>st. (x, elapse st)) (st, evs) = Some (t, st', evs')"
  shows "\<exists>k\<ge>num_trials. evs' = evs @ replicate k (Sink x)"
proof -
  from assms obtain rs where m: "measure_fn tps (\<lambda>st. (x, elapse st)) st = Some (t, rs, st')"
    and e: "evs' = evs @ map Sink rs"
    by (auto simp: measure_logged_def split: option.splits)
  from measure_fn_sink [OF m] e show ?thesis by auto
qed

lemma visit_test_row_events:
  assumes "0 < B" and "1 \<le> N" and "N < 2 ^ 30"
    and "visit_test_row tps elapse1 elapse2 lib B N (st, evs) = Some (st', evs')"
  shows "\<exists>k1 r1 k2 r2. num_trials \<le> k1 \<and> num_trials \<le> k2 \<and>
           evs' = evs @ row_events lib N (k1, r1, k2, r2)"
proof -
  let ?ins = "[Construct, Reserve (nat N)] @ map (\<lambda>j. Insert (int j, int j)) [0..<nat N]"
  let ?f1 = "\<lambda>st. (Inr (hits lib N) :: ub + nat, elapse1 st)"
  let ?f2 = "\<lambda>st. (Inr (hits lib N) :: ub + nat, elapse2 st)"
  from assms(4) obtain t st2 evs2 t' evs4 where
    m1: "measure_logged tps ?f1 (st, evs @ ?ins) = Some (t, st2, evs2)"
    and m2: "measure_logged tps ?f2
        (st2, evs2 @ [Cout (Out_int N), Cout (Out_str '';''),
                      Cout (Out_double (throughput N t)), Cout (Out_str '';'')])
        = Some (t', st', evs4)"
    and e: "evs' = evs4 @ [Cout (Out_double (throughput N t')), Cout Out_endl]"
    by (auto simp: visit_test_row_def build_dataset_eq Let_def
        bind_regular_build_map [OF assms(2,3)] bind_bulk_build_map [OF assms(2,3,1)]
        split: option.splits)
  from measure_logged_sink [OF m1] obtain k1 where
    k1: "num_trials \<le> k1" "evs2 = (evs @ ?ins) @ replicate k1 (Sink (Inr (hits lib N)))"
    by blast
  from measure_logged_sink [OF m2] obtain k2 where
    k2: "num_trials \<le> k2"
      "evs4 = (evs2 @ [Cout (Out_int N), Cout (Out_str '';''),
                       Cout (Out_double (throughput N t)), Cout (Out_str '';'')])
              @ replicate k2 (Sink (Inr (hits lib N)))"
    by blast
  have "evs' = evs @ row_events lib N (k1, throughput N t, k2, throughput N t')"
    by (simp add: e k1(2) k2(2) row_events_def)
  with k1(1) k2(1) show ?thesis by blast
qed

text \<open>
  A driver whose every candidate call takes 250 ticks of a millisecond clock: each trial
  is left after one call, each call of \<^verbatim>\<open>measure\<close> makes ten calls and returns a quarter of
  a second.
\<close>

lemma quarter_sum: "foldl double_add 0 [1 / 4, 1 / 4, 1 / 4, 1 / 4, 1 / 4, 1 / 4] = 3 / 2"
  by (simp add: double_add_def fl_eval)

lemma quarter_quotient: "double_div (3 / 2) 6 = 1 / 4"
  by (simp add: double_div_def fl_eval)

lemma aggregate_quarter: "aggregate (replicate 10 (1 / 4)) = 1 / 4"
  by (simp only: aggregate_trimmed trimmed_replicate_10 double_mean_def length_six
      quarter_sum double_six quarter_quotient)

lemma run_trial_advance_250:
  "run_trial 1000 (\<lambda>st. (x, advance 250 st)) st =
     Some (\<lparr>t_runs = 1, t_sink = [x], t_span = 250, t_average = 1 / 4\<rparr>,
           st\<lparr>clock := clock st + 250, measure_start := clock st\<rparr>)"
  using run_trial_advance [of 250 1000 1 x st] average_250
  by (simp add: less_than_ms_def min_time_per_trial_def)

lemma concat_replicate_single: "concat (replicate n [x]) = replicate n x"
  by (induction n) simp_all

lemma measure_fn_advance_250:
  "measure_fn 1000 (\<lambda>st. (x, advance 250 st)) st =
     Some (1 / 4, replicate 10 x, st\<lparr>clock := clock st + 2500, measure_start := clock st + 2250\<rparr>)"
  by (simp add: measure_fn_def measure_trials_def num_trials_def aggregate_quarter
      concat_replicate_single
      run_trials_advance [of 1000 "\<lambda>st. (x, advance 250 st)" _ 250, OF run_trial_advance_250])

lemma visit_test_row_advance_250:
  assumes "0 < B" and "1 \<le> N" and "N < 2 ^ 30"
  shows "visit_test_row 1000 (advance 250) (advance 250) lib B N (st, evs) =
           Some (st\<lparr>clock := clock st + 5000, measure_start := clock st + 4750\<rparr>,
                 evs @ row_events lib N (10, throughput N (1 / 4), 10, throughput N (1 / 4)))"
  by (simp add: visit_test_row_def build_dataset_eq measure_logged_def
      bind_regular_build_map [OF assms(2,3)] bind_bulk_build_map [OF assms(2,3,1)]
      measure_fn_advance_250 row_events_def)

lemma draws_add:
  "fst (draws lib d (j + n) g) =
     fst (draws lib d j g) @ fst (draws lib d n (snd (draws lib d j g)))"
  by (induction j arbitrary: g) (simp_all add: case_prod_unfold Let_def)

lemma hits_ge:
  assumes "j \<le> nat N"
  shows "length (filter (\<lambda>k. 0 \<le> k \<and> k < N)
           (fst (draws lib (0, 2 * N - 1) j (splitmix64_urng lib seed)))) \<le> hits lib N"
proof -
  from assms have "nat N = j + (nat N - j)" by simp
  then have "fst (draws lib (0, 2 * N - 1) (nat N) (splitmix64_urng lib seed)) =
      fst (draws lib (0, 2 * N - 1) j (splitmix64_urng lib seed)) @
      fst (draws lib (0, 2 * N - 1) (nat N - j)
        (snd (draws lib (0, 2 * N - 1) j (splitmix64_urng lib seed))))"
    using draws_add [of lib "(0, 2 * N - 1)" j "nat N - j" "splitmix64_urng lib seed"] by simp
  then show ?thesis by (simp add: hits_def)
qed

lemma sample_draws_3000:
  "draws sample_lib (0, 5999) 2 (splitmix64_urng sample_lib seed)
     = ([5020, 1932], 4354685564937127826)"
  by (simp add: draws_numeral sample_lib_def scaled_draw_def splitmix64_next_def
      Let_def seed_def)

lemma sample_draws_25000:
  "draws sample_lib (0, 49999) 2 (splitmix64_urng sample_lib seed)
     = ([41838, 16107], 4354685564937127826)"
  by (simp add: draws_numeral sample_lib_def scaled_draw_def splitmix64_next_def
      Let_def seed_def)

lemma sample_draws_600000:
  "draws sample_lib (0, 1199999) 2 (splitmix64_urng sample_lib seed)
     = ([1004126, 386591], 4354685564937127826)"
  by (simp add: draws_numeral sample_lib_def scaled_draw_def splitmix64_next_def
      Let_def seed_def)

lemma sample_draws_10000000:
  "draws sample_lib (0, 19999999) 2 (splitmix64_urng sample_lib seed)
     = ([16735437, 6443190], 4354685564937127826)"
  by (simp add: draws_numeral sample_lib_def scaled_draw_def splitmix64_next_def
      Let_def seed_def)

lemma sample_hits:
  "0 < hits sample_lib 3000 \<and> 0 < hits sample_lib 25000 \<and>
   0 < hits sample_lib 600000 \<and> 0 < hits sample_lib 10000000"
  using hits_ge [of 2 3000 sample_lib] hits_ge [of 2 25000 sample_lib]
    hits_ge [of 2 600000 sample_lib] hits_ge [of 2 10000000 sample_lib]
  by (simp add: sample_draws_3000 sample_draws_25000 sample_draws_600000 sample_draws_10000000)

lemma visit_test_advance_250:
  assumes "0 < B"
  shows "visit_test 1000 (advance 250) (advance 250) lib B name1 name2
           (\<lparr>clock = 0, measure_start = 0, measure_pause = 0\<rparr>, []) =
         Some (\<lparr>clock = 20000, measure_start = 19750, measure_pause = 0\<rparr>,
               header_events name1 name2 @
               row_events lib 3000 (10, throughput 3000 (1 / 4), 10, throughput 3000 (1 / 4)) @
               row_events lib 25000 (10, throughput 25000 (1 / 4), 10, throughput 25000 (1 / 4)) @
               row_events lib 600000 (10, throughput 600000 (1 / 4), 10, throughput 600000 (1 / 4)) @
               row_events lib 10000000
                 (10, throughput 10000000 (1 / 4), 10, throughput 10000000 (1 / 4)))"
  by (simp add: visit_test_def sweep_def header_events_def
      visit_test_row_advance_250 [OF assms])

text \<open>
  Claim C8. A run of the benchmark driver that returns has printed the two header lines
  and then gone through the sizes 3000, 25000, 600000 and 10000000 in that order. For each
  size \<open>N\<close> it has constructed a container, reserved room for \<open>N\<close> entries and inserted
  the pairs \<open>(0, 0)\<close> to \<open>(N - 1, N - 1)\<close> in that order, all before the first timed run of
  that size; every timed run of either strategy, at least \<open>num_trials\<close> of each, has
  found in the container it was handed exactly the keys below \<open>N\<close> among the keys it drew.
  The container these calls build holds the \<open>N\<close> entries \<open>k \<mapsto> k\<close> for \<open>0 \<le> k < N\<close> and no
  other, with room reserved for \<open>N\<close>. The batch size of the container is a positive
  parameter.
\<close>

theorem dataset_construction:
  assumes "0 < B"
    and "visit_test tps elapse1 elapse2 lib B name1 name2 (st, evs) = Some (st', evs')"
  shows "(\<exists>q1 q2 q3 q4.
            evs' = evs @ header_events name1 name2 @
                   row_events lib 3000 q1 @ row_events lib 25000 q2 @
                   row_events lib 600000 q3 @ row_events lib 10000000 q4 \<and>
            (\<forall>(k1, r1, k2, r2)\<in>{q1, q2, q3, q4}. num_trials \<le> k1 \<and> num_trials \<le> k2)) \<and>
         (\<forall>N\<in>set sweep. \<forall>e.
            fst (build_dataset N e) = build_map N \<and>
            entries (build_map N) = (\<lambda>k. if 0 \<le> k \<and> k < N then Some k else None) \<and>
            card (dom (entries (build_map N))) = nat N \<and>
            reserved (build_map N) = nat N)"
proof
  let ?h = "evs @ header_events name1 name2"
  from assms(2) obtain s1 e1 s2 e2 s3 e3 where
    r1: "visit_test_row tps elapse1 elapse2 lib B 3000 (st, ?h) = Some (s1, e1)"
    and r2: "visit_test_row tps elapse1 elapse2 lib B 25000 (s1, e1) = Some (s2, e2)"
    and r3: "visit_test_row tps elapse1 elapse2 lib B 600000 (s2, e2) = Some (s3, e3)"
    and r4: "visit_test_row tps elapse1 elapse2 lib B 10000000 (s3, e3) = Some (st', evs')"
    by (auto simp: visit_test_def sweep_def header_events_def split: option.splits)
  from visit_test_row_events [OF assms(1) _ _ r1] obtain k1 x1 l1 y1 where
    q1: "num_trials \<le> k1" "num_trials \<le> l1" "e1 = ?h @ row_events lib 3000 (k1, x1, l1, y1)"
    by auto
  from visit_test_row_events [OF assms(1) _ _ r2] obtain k2 x2 l2 y2 where
    q2: "num_trials \<le> k2" "num_trials \<le> l2" "e2 = e1 @ row_events lib 25000 (k2, x2, l2, y2)"
    by auto
  from visit_test_row_events [OF assms(1) _ _ r3] obtain k3 x3 l3 y3 where
    q3: "num_trials \<le> k3" "num_trials \<le> l3" "e3 = e2 @ row_events lib 600000 (k3, x3, l3, y3)"
    by auto
  from visit_test_row_events [OF assms(1) _ _ r4] obtain k4 x4 l4 y4 where
    q4: "num_trials \<le> k4" "num_trials \<le> l4"
      "evs' = e3 @ row_events lib 10000000 (k4, x4, l4, y4)"
    by auto
  have "evs' = evs @ header_events name1 name2 @
      row_events lib 3000 (k1, x1, l1, y1) @ row_events lib 25000 (k2, x2, l2, y2) @
      row_events lib 600000 (k3, x3, l3, y3) @ row_events lib 10000000 (k4, x4, l4, y4)"
    by (simp only: q1(3) q2(3) q3(3) q4(3) append_assoc)
  moreover have "\<forall>(k1, r1, k2, r2)\<in>{(k1, x1, l1, y1), (k2, x2, l2, y2), (k3, x3, l3, y3),
      (k4, x4, l4, y4)}. num_trials \<le> k1 \<and> num_trials \<le> k2"
    using q1(1,2) q2(1,2) q3(1,2) q4(1,2) by simp
  ultimately show "\<exists>q1 q2 q3 q4.
      evs' = evs @ header_events name1 name2 @
             row_events lib 3000 q1 @ row_events lib 25000 q2 @
             row_events lib 600000 q3 @ row_events lib 10000000 q4 \<and>
      (\<forall>(k1, r1, k2, r2)\<in>{q1, q2, q3, q4}. num_trials \<le> k1 \<and> num_trials \<le> k2)"
    by blast
next
  show "\<forall>N\<in>set sweep. \<forall>e.
      fst (build_dataset N e) = build_map N \<and>
      entries (build_map N) = (\<lambda>k. if 0 \<le> k \<and> k < N then Some k else None) \<and>
      card (dom (entries (build_map N))) = nat N \<and>
      reserved (build_map N) = nat N"
    by (simp add: build_dataset_eq entries_build_map [symmetric] dom_build_map
        reserved_build_map)
qed

theorem dataset_construction_witness:
  "visit_test 1000 (advance 250) (advance 250) sample_lib 2 ''regular'' ''bulk''
     (\<lparr>clock = 0, measure_start = 0, measure_pause = 0\<rparr>, []) =
   Some (\<lparr>clock = 20000, measure_start = 19750, measure_pause = 0\<rparr>,
         header_events ''regular'' ''bulk'' @
         row_events sample_lib 3000 (10, throughput 3000 (1 / 4), 10, throughput 3000 (1 / 4)) @
         row_events sample_lib 25000
           (10, throughput 25000 (1 / 4), 10, throughput 25000 (1 / 4)) @
         row_events sample_lib 600000
           (10, throughput 600000 (1 / 4), 10, throughput 600000 (1 / 4)) @
         row_events sample_lib 10000000
           (10, throughput 10000000 (1 / 4), 10, throughput 10000000 (1 / 4))) \<and>
   0 < hits sample_lib 3000 \<and> 0 < hits sample_lib 25000 \<and>
   0 < hits sample_lib 600000 \<and> 0 < hits sample_lib 10000000 \<and>
   entries (fst (build_dataset 3000 [])) 2999 = Some 2999 \<and>
   entries (fst (build_dataset 3000 [])) 3000 = None \<and>
   reserved (fst (build_dataset 3000 [])) = 3000"
proof -
  have pos: "0 < (2 :: nat)" by simp
  note run = visit_test_advance_250 [OF pos, of sample_lib "''regular''" "''bulk''"]
  from dataset_construction [OF pos run]
  have "\<forall>N\<in>set sweep. \<forall>e.
      fst (build_dataset N e) = build_map N \<and>
      entries (build_map N) = (\<lambda>k. if 0 \<le> k \<and> k < N then Some k else None) \<and>
      card (dom (entries (build_map N))) = nat N \<and>
      reserved (build_map N) = nat N" by (rule conjunct2)
  moreover have "3000 \<in> set sweep" by (simp add: sweep_def)
  ultimately have "\<forall>e. fst (build_dataset 3000 e) = build_map 3000 \<and>
      entries (build_map 3000) = (\<lambda>k. if 0 \<le> k \<and> k < 3000 then Some k else None) \<and>
      card (dom (entries (build_map 3000))) = nat 3000 \<and>
      reserved (build_map 3000) = nat 3000"
    by (rule bspec)
  then have "entries (fst (build_dataset 3000 [])) 2999 = Some 2999 \<and>
      entries (fst (build_dataset 3000 [])) 3000 = None \<and>
      reserved (fst (build_dataset 3000 [])) = 3000"
    by simp
  with run sample_hits show ?thesis by simp
qed

end
